theory Spec2Isabelle
  imports Complex_Main "HOL-Library.Multiset"
begin

section \<open>The vector store of second-brain-mcp (src/vector-store.ts)\<close>

subsection \<open>Strings\<close>

text \<open>
  A JavaScript string is modelled as a \<^typ>\<open>string\<close>, one \<^typ>\<open>char\<close> per code unit below
  256. \<open>String.prototype.trim\<close> strips white space and line terminators from both ends; in
  this range these are TAB, LF, VT, FF, CR, SPACE and NBSP.
\<close>

definition NL :: char where
  "NL = CHR 0x0A"

definition is_space :: "char \<Rightarrow> bool" where
  "is_space c = (c \<in> set [CHR 0x09, CHR 0x0A, CHR 0x0B, CHR 0x0C, CHR 0x0D, CHR 0x20, CHR 0xA0])"

definition trim :: "string \<Rightarrow> string" where
  "trim s = rev (dropWhile is_space (rev (dropWhile is_space s)))"

text \<open>\<open>text.split('\n')\<close>: the pieces between line feeds; the empty string gives one empty piece.\<close>

fun split_nl :: "string \<Rightarrow> string list" where
  "split_nl [] = [[]]"
| "split_nl (c # cs) =
     (if c = NL then [] # split_nl cs
      else (case split_nl cs of [] \<Rightarrow> [[c]] | l # ls \<Rightarrow> (c # l) # ls))"

text \<open>\<open>Array.prototype.join('\n')\<close>, the inverse of \<^const>\<open>split_nl\<close>.\<close>

fun join_nl :: "string list \<Rightarrow> string" where
  "join_nl [] = []"
| "join_nl [l] = l"
| "join_nl (l # m # ls) = l @ NL # join_nl (m # ls)"

subsection \<open>chunkText\<close>

text \<open>
  The loop of \<open>chunkText\<close> over the lines, on the pair of \<open>chunks\<close> and \<open>currentChunk\<close>.
  The loop flushes when the buffer is a non-empty string, whatever its trimmed value is.
\<close>

fun chunk_loop :: "int \<Rightarrow> string list \<Rightarrow> string list \<times> string \<Rightarrow> string list \<times> string" where
  "chunk_loop maxChunkSize [] (chunks, currentChunk) = (chunks, currentChunk)"
| "chunk_loop maxChunkSize (line # lines) (chunks, currentChunk) =
     (if int (length currentChunk + length line) > maxChunkSize \<and> currentChunk \<noteq> []
      then chunk_loop maxChunkSize lines (chunks @ [trim currentChunk], line @ [NL])
      else chunk_loop maxChunkSize lines (chunks, currentChunk @ line @ [NL]))"

definition chunkText :: "string \<Rightarrow> int \<Rightarrow> string list" where
  "chunkText text maxChunkSize =
     (case chunk_loop maxChunkSize (split_nl text) ([], []) of
        (chunks, currentChunk) \<Rightarrow>
          if trim currentChunk \<noteq> [] then chunks @ [trim currentChunk] else chunks)"


definition finish :: "string list \<times> string \<Rightarrow> string list" where
  "finish st =
     (case st of (chunks, currentChunk) \<Rightarrow>
        if trim currentChunk \<noteq> [] then chunks @ [trim currentChunk] else chunks)"

text \<open>The buffer that the loop builds from a run of lines, and a line that \<^const>\<open>trim\<close> leaves alone.\<close>

definition buf :: "string list \<Rightarrow> string" where
  "buf ls = concat (map (\<lambda>l. l @ [NL]) ls)"

definition clean_line :: "string \<Rightarrow> bool" where
  "clean_line l = (l \<noteq> [] \<and> \<not> is_space (hd l) \<and> \<not> is_space (last l))"

subsection \<open>Numbers and values\<close>

text \<open>
  A JavaScript number is NaN, an infinity or a finite value. Finite values are idealised as
  reals: rounding, overflow and the sign of zero are left out, while NaN and the infinities
  follow IEEE 754 (\<open>0/0\<close>, \<open>\<infinity> - \<infinity>\<close> and \<open>0 * \<infinity>\<close> are NaN, \<open>x/0\<close> is an infinity for \<open>x \<noteq> 0\<close>).
\<close>

datatype jsnum = NaN | PInf | NInf | Fin real

datatype jsval = Undefined | Number jsnum

fun js_neg :: "jsnum \<Rightarrow> jsnum" where
  "js_neg NaN = NaN"
| "js_neg PInf = NInf"
| "js_neg NInf = PInf"
| "js_neg (Fin x) = Fin (- x)"

fun js_add :: "jsnum \<Rightarrow> jsnum \<Rightarrow> jsnum" where
  "js_add NaN y = NaN"
| "js_add PInf y = (case y of NaN \<Rightarrow> NaN | NInf \<Rightarrow> NaN | _ \<Rightarrow> PInf)"
| "js_add NInf y = (case y of NaN \<Rightarrow> NaN | PInf \<Rightarrow> NaN | _ \<Rightarrow> NInf)"
| "js_add (Fin x) y = (case y of Fin z \<Rightarrow> Fin (x + z) | _ \<Rightarrow> y)"

definition js_sub :: "jsnum \<Rightarrow> jsnum \<Rightarrow> jsnum" where
  "js_sub x y = js_add x (js_neg y)"

fun js_mul :: "jsnum \<Rightarrow> jsnum \<Rightarrow> jsnum" where
  "js_mul NaN y = NaN"
| "js_mul PInf y =
     (case y of NaN \<Rightarrow> NaN | PInf \<Rightarrow> PInf | NInf \<Rightarrow> NInf
      | Fin z \<Rightarrow> if z = 0 then NaN else if 0 < z then PInf else NInf)"
| "js_mul NInf y =
     (case y of NaN \<Rightarrow> NaN | PInf \<Rightarrow> NInf | NInf \<Rightarrow> PInf
      | Fin z \<Rightarrow> if z = 0 then NaN else if 0 < z then NInf else PInf)"
| "js_mul (Fin x) y =
     (case y of NaN \<Rightarrow> NaN
      | PInf \<Rightarrow> if x = 0 then NaN else if 0 < x then PInf else NInf
      | NInf \<Rightarrow> if x = 0 then NaN else if 0 < x then NInf else PInf
      | Fin z \<Rightarrow> Fin (x * z))"

fun js_div :: "jsnum \<Rightarrow> jsnum \<Rightarrow> jsnum" where
  "js_div NaN y = NaN"
| "js_div PInf y =
     (case y of Fin z \<Rightarrow> if 0 \<le> z then PInf else NInf | _ \<Rightarrow> NaN)"
| "js_div NInf y =
     (case y of Fin z \<Rightarrow> if 0 \<le> z then NInf else PInf | _ \<Rightarrow> NaN)"
| "js_div (Fin x) y =
     (case y of NaN \<Rightarrow> NaN | PInf \<Rightarrow> Fin 0 | NInf \<Rightarrow> Fin 0
      | Fin z \<Rightarrow>
          if z = 0 then (if x = 0 then NaN else if 0 < x then PInf else NInf)
          else Fin (x / z))"

fun js_sqrt :: "jsnum \<Rightarrow> jsnum" where
  "js_sqrt NaN = NaN"
| "js_sqrt PInf = PInf"
| "js_sqrt NInf = NaN"
| "js_sqrt (Fin x) = (if x < 0 then NaN else Fin (sqrt x))"

text \<open>The comparison \<open>x >= y\<close> of two numbers: false as soon as one of them is NaN.\<close>

fun js_ge :: "jsnum \<Rightarrow> jsnum \<Rightarrow> bool" where
  "js_ge NaN y = False"
| "js_ge PInf y = (y \<noteq> NaN)"
| "js_ge NInf y = (y = NInf)"
| "js_ge (Fin x) y = (case y of NaN \<Rightarrow> False | PInf \<Rightarrow> False | NInf \<Rightarrow> True | Fin z \<Rightarrow> z \<le> x)"

text \<open>
  Reading an array: \<open>b[i]\<close> beyond the end is \<open>undefined\<close> and raises nothing; the
  multiplication converts its operands with ToNumber, which takes \<open>undefined\<close> to NaN.
\<close>

definition js_index :: "jsnum list \<Rightarrow> nat \<Rightarrow> jsval" where
  "js_index xs i = (if i < length xs then Number (xs ! i) else Undefined)"

fun to_number :: "jsval \<Rightarrow> jsnum" where
  "to_number Undefined = NaN"
| "to_number (Number x) = x"

definition js_times :: "jsval \<Rightarrow> jsval \<Rightarrow> jsnum" where
  "js_times x y = js_mul (to_number x) (to_number y)"

subsection \<open>cosineSimilarity\<close>

text \<open>The loop runs over the indices of \<open>a\<close> only; the length of \<open>b\<close> is never looked at.\<close>

function cosine_loop ::
  "jsnum list \<Rightarrow> jsnum list \<Rightarrow> nat \<Rightarrow> jsnum \<times> jsnum \<times> jsnum \<Rightarrow> jsnum \<times> jsnum \<times> jsnum" where
  "cosine_loop a b i (dotProduct, normA, normB) =
     (if i < length a
      then cosine_loop a b (Suc i)
             (js_add dotProduct (js_times (js_index a i) (js_index b i)),
              js_add normA (js_times (js_index a i) (js_index a i)),
              js_add normB (js_times (js_index b i) (js_index b i)))
      else (dotProduct, normA, normB))"
  by pat_completeness auto
termination
  by (relation "measure (\<lambda>(a, b, i, acc). length a - i)") auto

declare cosine_loop.simps [simp del]

definition cosineSimilarity :: "jsnum list \<Rightarrow> jsnum list \<Rightarrow> jsnum" where
  "cosineSimilarity a b =
     (case cosine_loop a b 0 (Fin 0, Fin 0, Fin 0) of
        (dotProduct, normA, normB) \<Rightarrow> js_div dotProduct (js_mul (js_sqrt normA) (js_sqrt normB)))"

subsection \<open>The persistent store\<close>

text \<open>
  The two tables of \<open>initialize\<close>, each a list of rows in rowid order. \<open>files\<close> has an
  AUTOINCREMENT key and a UNIQUE path; \<open>embeddings\<close> has the key (file_id, chunk_index) and
  refers to \<open>files(id)\<close> with ON DELETE CASCADE. \<open>seq\<close> is the AUTOINCREMENT counter of
  \<open>files\<close>, \<open>foreign_keys\<close> the pragma of the connection that decides whether the cascade runs.
  Modification times are integers of milliseconds, as \<open>Date.getTime\<close> of a valid date gives.
\<close>

record file_row =
  f_id :: nat
  f_path :: string
  f_content :: string
  f_mtime :: int
  f_size :: int
  f_extension :: string

record embedding_row =
  e_file_id :: nat
  e_chunk_index :: nat
  e_chunk_text :: string
  e_embedding :: "jsnum list"

record db =
  files :: "file_row list"
  embeddings :: "embedding_row list"
  seq :: nat
  foreign_keys :: bool

text \<open>\<open>new Database(dbPath)\<close> on a fresh path, after \<open>initialize\<close>; the driver turns the pragma on.\<close>

definition new_db :: db where
  "new_db = \<lparr>files = [], embeddings = [], seq = 0, foreign_keys = True\<rparr>"

record IndexedFile =
  path :: string
  content :: string
  mtime :: int
  size_bytes :: int
  extension :: string

datatype error = EmbeddingError | TypeError | ConstraintError

text \<open>
  The next AUTOINCREMENT key: one more than the largest key the table has ever held.
\<close>

definition next_id :: "db \<Rightarrow> nat" where
  "next_id d = Suc (fold max (map f_id (files d)) (seq d))"

text \<open>
  \<open>INSERT OR REPLACE INTO files\<close>: the row that holds the path is deleted, its embeddings go
  with it when foreign keys are enforced, and the new row is added under a fresh key, which
  is \<open>lastInsertRowid\<close>.
\<close>

definition insertFile :: "IndexedFile \<Rightarrow> db \<Rightarrow> nat \<times> db" where
  "insertFile file d =
     (let replaced = map f_id (filter (\<lambda>r. f_path r = path file) (files d));
          fileId = next_id d;
          row = \<lparr>f_id = fileId, f_path = path file, f_content = content file,
                 f_mtime = mtime file, f_size = size_bytes file, f_extension = extension file\<rparr>
      in (fileId,
          d\<lparr>files := filter (\<lambda>r. f_path r \<noteq> path file) (files d) @ [row],
            embeddings :=
              (if foreign_keys d
               then filter (\<lambda>e. e_file_id e \<notin> set replaced) (embeddings d)
               else embeddings d),
            seq := fileId\<rparr>))"

text \<open>
  \<open>INSERT OR REPLACE INTO embeddings\<close>: a row with the same key is replaced; with foreign
  keys enforced, a row whose file is missing is refused.
\<close>

definition insertEmbedding :: "nat \<Rightarrow> nat \<Rightarrow> string \<Rightarrow> jsnum list \<Rightarrow> db \<Rightarrow> error + db" where
  "insertEmbedding fileId idx txt buffer d =
     (if foreign_keys d \<and> fileId \<notin> set (map f_id (files d)) then Inl ConstraintError
      else Inr (d\<lparr>embeddings :=
                  filter (\<lambda>e. \<not> (e_file_id e = fileId \<and> e_chunk_index e = idx)) (embeddings d)
                  @ [\<lparr>e_file_id = fileId, e_chunk_index = idx, e_chunk_text = txt,
                      e_embedding = buffer\<rparr>]\<rparr>))"

subsection \<open>indexFiles\<close>

text \<open>
  The Embedding Client is a parameter: from its own state and a batch of texts it gives the
  vectors of \<open>response.data\<close>, or fails. \<open>fround\<close> is the rounding of \<open>Float32Array\<close>.
  Every statement commits on its own, so the store after a failure is the store at that point.
\<close>

type_synonym 'e client = "'e \<Rightarrow> string list \<Rightarrow> jsnum list list option \<times> 'e"

definition batchSize :: nat where
  "batchSize = 20"

definition slice :: "'a list \<Rightarrow> nat \<Rightarrow> nat \<Rightarrow> 'a list" where
  "slice xs i j = take (j - i) (drop i xs)"

text \<open>The inner loop over \<open>j\<close>; \<open>response.data[j].embedding\<close> throws when the response is short.\<close>

function store_batch ::
  "(jsnum \<Rightarrow> jsnum) \<Rightarrow> nat \<Rightarrow> nat \<Rightarrow> string list \<Rightarrow> jsnum list list \<Rightarrow> nat \<Rightarrow> db
   \<Rightarrow> error option \<times> db" where
  "store_batch fround fileId i batch data j d =
     (if j < length batch
      then (if j < length data
            then (case insertEmbedding fileId (i + j) (batch ! j) (map fround (data ! j)) d of
                    Inl err \<Rightarrow> (Some err, d)
                  | Inr d' \<Rightarrow> store_batch fround fileId i batch data (Suc j) d')
            else (Some TypeError, d))
      else (None, d))"
  by pat_completeness auto
termination
  by (relation "measure (\<lambda>(fround, fileId, i, batch, data, j, d). length batch - j)") auto

declare store_batch.simps [simp del]

text \<open>The loop over the batches, \<open>i\<close> going up by \<open>batchSize\<close>.\<close>

function embed_batches ::
  "'e client \<Rightarrow> (jsnum \<Rightarrow> jsnum) \<Rightarrow> nat \<Rightarrow> string list \<Rightarrow> nat \<Rightarrow> db \<times> 'e
   \<Rightarrow> error option \<times> db \<times> 'e" where
  "embed_batches client fround fileId chunks i (d, e) =
     (if i < length chunks
      then (case client e (slice chunks i (i + batchSize)) of
              (None, e') \<Rightarrow> (Some EmbeddingError, d, e')
            | (Some data, e') \<Rightarrow>
                (case store_batch fround fileId i (slice chunks i (i + batchSize)) data 0 d of
                   (Some err, d') \<Rightarrow> (Some err, d', e')
                 | (None, d') \<Rightarrow>
                     embed_batches client fround fileId chunks (i + batchSize) (d', e')))
      else (None, d, e))"
  by pat_completeness auto
termination
  by (relation "measure (\<lambda>(client, fround, fileId, chunks, i, s). length chunks - i)")
    (auto simp: batchSize_def)

declare embed_batches.simps [simp del]

text \<open>The body of the loop over the files.\<close>

definition index_file ::
  "'e client \<Rightarrow> (jsnum \<Rightarrow> jsnum) \<Rightarrow> IndexedFile \<Rightarrow> db \<times> 'e \<Rightarrow> error option \<times> db \<times> 'e" where
  "index_file client fround file s =
     (case s of (d, e) \<Rightarrow>
        (case insertFile file d of
           (fileId, d') \<Rightarrow>
             embed_batches client fround fileId (chunkText (content file) 500) 0 (d', e)))"

text \<open>\<open>indexFiles\<close> has no return statement: its promise resolves to \<open>undefined\<close>.\<close>

fun indexFiles ::
  "'e client \<Rightarrow> (jsnum \<Rightarrow> jsnum) \<Rightarrow> IndexedFile list \<Rightarrow> db \<times> 'e \<Rightarrow> (error + jsval) \<times> db \<times> 'e" where
  "indexFiles client fround [] s = (Inr Undefined, s)"
| "indexFiles client fround (file # rest) s =
     (case index_file client fround file s of
        (Some err, s') \<Rightarrow> (Inl err, s')
      | (None, s') \<Rightarrow> indexFiles client fround rest s')"

subsection \<open>search\<close>

record SearchResult =
  r_path :: string
  r_content :: string
  r_score :: jsnum
  r_mtime :: int

text \<open>
  The join of the query, read in the order of the \<open>embeddings\<close> table. The vector read
  back from a row is the vector that was stored.
\<close>

definition joined :: "db \<Rightarrow> (embedding_row \<times> file_row) list" where
  "joined d =
     concat (map (\<lambda>e. map (\<lambda>f. (e, f)) (filter (\<lambda>f. f_id f = e_file_id e) (files d)))
               (embeddings d))"

definition score_row :: "jsnum list \<Rightarrow> embedding_row \<times> file_row \<Rightarrow> SearchResult" where
  "score_row queryEmbedding row =
     (case row of (e, f) \<Rightarrow>
        \<lparr>r_path = f_path f, r_content = e_chunk_text e,
         r_score = cosineSimilarity queryEmbedding (e_embedding e), r_mtime = f_mtime f\<rparr>)"

text \<open>
  \<open>Array.prototype.sort\<close> with the comparator \<open>(a, b) => b.score - a.score\<close>. The sort is
  stable and takes a NaN from the comparator as 0. It is modelled as a stable insertion
  sort: \<open>x\<close>, which stood before \<open>y\<close>, moves behind it only when the comparator is positive.
  With a consistent comparator every stable sort gives this list.
\<close>

definition compare_score :: "SearchResult \<Rightarrow> SearchResult \<Rightarrow> jsnum" where
  "compare_score a b = js_sub (r_score b) (r_score a)"

fun js_positive :: "jsnum \<Rightarrow> bool" where
  "js_positive NaN = False"
| "js_positive PInf = True"
| "js_positive NInf = False"
| "js_positive (Fin x) = (0 < x)"

fun sort_insert :: "('a \<Rightarrow> 'a \<Rightarrow> jsnum) \<Rightarrow> 'a \<Rightarrow> 'a list \<Rightarrow> 'a list" where
  "sort_insert cmp x [] = [x]"
| "sort_insert cmp x (y # ys) =
     (if js_positive (cmp x y) then y # sort_insert cmp x ys else x # y # ys)"

definition js_sort :: "('a \<Rightarrow> 'a \<Rightarrow> jsnum) \<Rightarrow> 'a list \<Rightarrow> 'a list" where
  "js_sort cmp xs = foldr (sort_insert cmp) xs []"

text \<open>\<open>slice(0, limit)\<close> for an integer \<open>limit\<close>: a negative one counts from the end.\<close>

definition slice0 :: "int \<Rightarrow> 'a list \<Rightarrow> 'a list" where
  "slice0 limit xs =
     (if limit < 0 then take (nat (max (int (length xs) + limit) 0)) xs
      else take (nat limit) xs)"

text \<open>\<open>results\<close>, before the sort, and what \<open>search\<close> makes of them.\<close>

definition scored :: "jsnum list \<Rightarrow> db \<Rightarrow> SearchResult list" where
  "scored queryEmbedding d = map (score_row queryEmbedding) (joined d)"

definition rank :: "jsnum list \<Rightarrow> int \<Rightarrow> db \<Rightarrow> SearchResult list" where
  "rank queryEmbedding limit d = slice0 limit (js_sort compare_score (scored queryEmbedding d))"

definition search ::
  "'e client \<Rightarrow> string \<Rightarrow> int \<Rightarrow> db \<times> 'e \<Rightarrow> (error + SearchResult list) \<times> 'e" where
  "search client query limit s =
     (case s of (d, e) \<Rightarrow>
        (case client e [query] of
           (None, e') \<Rightarrow> (Inl EmbeddingError, e')
         | (Some data, e') \<Rightarrow>
             (case data of
                [] \<Rightarrow> (Inl TypeError, e')
              | queryEmbedding # _ \<Rightarrow> (Inr (rank queryEmbedding limit d), e'))))"

subsection \<open>getRecentFiles\<close>

text \<open>
  \<open>now\<close> is the value of \<open>Date.now()\<close>, in milliseconds, and \<open>days\<close> a whole number of days.
  SQL leaves the order of rows of equal time open; here they come newest key first.
\<close>

definition getRecentFiles :: "int \<Rightarrow> int \<Rightarrow> db \<Rightarrow> (string \<times> int) list" where
  "getRecentFiles now days d =
     (let cutoff = now - days * 24 * 60 * 60 * 1000
      in map (\<lambda>row. (f_path row, f_mtime row))
           (rev (sort_key f_mtime (filter (\<lambda>row. f_mtime row > cutoff) (files d)))))"

subsection \<open>Invariants of the store\<close>

text \<open>
  What the schema and the AUTOINCREMENT counter keep true of every store the program has
  built: keys and paths are unique, and no row is ahead of the counter.
\<close>

definition wf_db :: "db \<Rightarrow> bool" where
  "wf_db d =
     (distinct (map f_id (files d)) \<and> distinct (map f_path (files d)) \<and>
      distinct (map (\<lambda>e. (e_file_id e, e_chunk_index e)) (embeddings d)) \<and>
      list_all (\<lambda>r. f_id r \<le> seq d) (files d) \<and>
      list_all (\<lambda>e. e_file_id e \<le> seq d) (embeddings d))"

definition no_orphans :: "db \<Rightarrow> bool" where
  "no_orphans d = list_all (\<lambda>e. e_file_id e \<in> set (map f_id (files d))) (embeddings d)"

text \<open>The rows of a path: its file rows, each with the embeddings that join to it.\<close>

definition path_view :: "db \<Rightarrow> string \<Rightarrow> (file_row \<times> embedding_row list) list" where
  "path_view d p =
     map (\<lambda>r. (r, filter (\<lambda>e. e_file_id e = f_id r) (embeddings d)))
       (filter (\<lambda>r. f_path r = p) (files d))"

text \<open>
  A file is held with its first \<open>n\<close> chunks: one row for its path, carrying its fields, and
  joined to it exactly the chunks \<open>0 .. n - 1\<close> of its content, in order.
\<close>

definition held :: "db \<Rightarrow> IndexedFile \<Rightarrow> nat \<Rightarrow> bool" where
  "held d file n =
     (case path_view d (path file) of
        [(r, es)] \<Rightarrow>
          f_content r = content file \<and> f_mtime r = mtime file \<and> f_size r = size_bytes file \<and>
          f_extension r = extension file \<and>
          map (\<lambda>e. (e_chunk_index e, e_chunk_text e)) es =
            zip [0 ..< n] (take n (chunkText (content file) 500))
      | _ \<Rightarrow> False)"

definition indexed :: "db \<Rightarrow> IndexedFile \<Rightarrow> bool" where
  "indexed d file = held d file (length (chunkText (content file) 500))"

subsection \<open>Test doubles and sample stores\<close>

text \<open>
  A client that answers every text with the same vector and counts its calls, and one
  that does so for its first \<open>n\<close> calls and fails from then on.
\<close>

definition fixed_client :: "jsnum list \<Rightarrow> nat client" where
  "fixed_client v e batch = (Some (map (\<lambda>t. v) batch), Suc e)"

definition failing_client :: "nat \<Rightarrow> jsnum list \<Rightarrow> nat client" where
  "failing_client n v e batch = (if e < n then Some (map (\<lambda>t. v) batch) else None, Suc e)"

definition sample_file :: IndexedFile where
  "sample_file =
     \<lparr>path = ''a.txt'', content = [CHR ''x'', NL, CHR ''y'', NL], mtime = 1000, size_bytes = 4,
      extension = ''.txt''\<rparr>"

text \<open>A store with one file and two chunks, the first with a vector of zeros.\<close>

definition sample_db :: db where
  "sample_db =
     \<lparr>files = [\<lparr>f_id = 1, f_path = ''a.txt'', f_content = [CHR ''x'', NL, CHR ''y'', NL],
                f_mtime = 1000, f_size = 4, f_extension = ''.txt''\<rparr>],
      embeddings =
        [\<lparr>e_file_id = 1, e_chunk_index = 0, e_chunk_text = ''x'', e_embedding = [Fin 0, Fin 0]\<rparr>,
         \<lparr>e_file_id = 1, e_chunk_index = 1, e_chunk_text = ''y'', e_embedding = [Fin 1, Fin 0]\<rparr>],
      seq = 1, foreign_keys = True\<rparr>"

text \<open>A store with three chunks, the first and the last with the same vector.\<close>

definition sample_db3 :: db where
  "sample_db3 =
     \<lparr>files = [\<lparr>f_id = 1, f_path = ''a.txt'', f_content = ''xyz'', f_mtime = 1000, f_size = 3,
                f_extension = ''.txt''\<rparr>],
      embeddings =
        [\<lparr>e_file_id = 1, e_chunk_index = 0, e_chunk_text = ''x'', e_embedding = [Fin 0, Fin 1]\<rparr>,
         \<lparr>e_file_id = 1, e_chunk_index = 1, e_chunk_text = ''y'', e_embedding = [Fin 1, Fin 0]\<rparr>,
         \<lparr>e_file_id = 1, e_chunk_index = 2, e_chunk_text = ''z'', e_embedding = [Fin 0, Fin 1]\<rparr>],
      seq = 1, foreign_keys = True\<rparr>"

subsection \<open>Notions for the proofs about the store\<close>

text \<open>
  The chunks stored under a file key, as pairs of index and text; the rows of all other
  keys; the condition under which the foreign key lets a row in; and the first \<open>n\<close>
  chunks of a list, numbered from 0.
\<close>

definition chunk_rows :: "db \<Rightarrow> nat \<Rightarrow> (nat \<times> string) list" where
  "chunk_rows d fileId =
     map (\<lambda>e. (e_chunk_index e, e_chunk_text e)) (filter (\<lambda>e. e_file_id e = fileId) (embeddings d))"

definition other_rows :: "db \<Rightarrow> nat \<Rightarrow> embedding_row list" where
  "other_rows d fileId = filter (\<lambda>e. e_file_id e \<noteq> fileId) (embeddings d)"

definition parent_ok :: "db \<Rightarrow> nat \<Rightarrow> bool" where
  "parent_ok d fileId = (foreign_keys d \<longrightarrow> fileId \<in> set (map f_id (files d)))"

definition enum :: "nat \<Rightarrow> string list \<Rightarrow> (nat \<times> string) list" where
  "enum n xs = zip [0 ..< n] (take n xs)"

text \<open>More sample files, and the stores that indexing them leaves behind.\<close>

definition sample_file2 :: IndexedFile where
  "sample_file2 =
     \<lparr>path = ''a.txt'', content = ''z'', mtime = 2000, size_bytes = 1, extension = ''.txt''\<rparr>"

definition sample_file_b :: IndexedFile where
  "sample_file_b =
     \<lparr>path = ''b.txt'', content = ''w'', mtime = 3000, size_bytes = 1, extension = ''.txt''\<rparr>"

definition sample_file_c :: IndexedFile where
  "sample_file_c =
     \<lparr>path = ''c.txt'', content = ''v'', mtime = 4000, size_bytes = 1, extension = ''.txt''\<rparr>"

definition row_a :: file_row where
  "row_a = \<lparr>f_id = 1, f_path = ''a.txt'', f_content = [CHR ''x'', NL, CHR ''y'', NL],
            f_mtime = 1000, f_size = 4, f_extension = ''.txt''\<rparr>"

definition row_a2 :: file_row where
  "row_a2 = \<lparr>f_id = 2, f_path = ''a.txt'', f_content = ''z'', f_mtime = 2000, f_size = 1,
             f_extension = ''.txt''\<rparr>"

definition row_b :: file_row where
  "row_b = \<lparr>f_id = 2, f_path = ''b.txt'', f_content = ''w'', f_mtime = 3000, f_size = 1,
            f_extension = ''.txt''\<rparr>"

definition chunk_a :: embedding_row where
  "chunk_a = \<lparr>e_file_id = 1, e_chunk_index = 0, e_chunk_text = [CHR ''x'', NL, CHR ''y''],
              e_embedding = [Fin 1]\<rparr>"

definition chunk_a2 :: embedding_row where
  "chunk_a2 = \<lparr>e_file_id = 2, e_chunk_index = 0, e_chunk_text = ''z'', e_embedding = [Fin 1]\<rparr>"

definition db_a :: db where
  "db_a = \<lparr>files = [row_a], embeddings = [chunk_a], seq = 1, foreign_keys = True\<rparr>"

definition db_a2 :: db where
  "db_a2 = \<lparr>files = [row_a2], embeddings = [chunk_a2], seq = 2, foreign_keys = True\<rparr>"

definition db_a2_failed :: db where
  "db_a2_failed = \<lparr>files = [row_a2], embeddings = [], seq = 2, foreign_keys = True\<rparr>"

definition db_ab_failed :: db where
  "db_ab_failed = \<lparr>files = [row_a, row_b], embeddings = [chunk_a], seq = 2, foreign_keys = True\<rparr>"

subsection \<open>Chunks and white space\<close>


subsection \<open>Batches the client answers\<close>

text \<open>
  The number of batches of \<open>chunks\<close>, taken from index \<open>i\<close> on in the order in which
  \<open>indexFiles\<close> sends them, that the client answers before it first fails.
\<close>

function answered_batches :: "'e client \<Rightarrow> string list \<Rightarrow> nat \<Rightarrow> 'e \<Rightarrow> nat" where
  "answered_batches client chunks i e =
     (if i < length chunks
      then (case client e (slice chunks i (i + batchSize)) of
              (None, e') \<Rightarrow> 0
            | (Some data, e') \<Rightarrow> Suc (answered_batches client chunks (i + batchSize) e'))
      else 0)"
  by pat_completeness auto
termination
  by (relation "measure (\<lambda>(client, chunks, i, e). length chunks - i)") (auto simp: batchSize_def)

declare answered_batches.simps [simp del]

text \<open>A file of 21 lines of 250 characters, and the store left when its second batch fails.\<close>

definition long_line :: string where
  "long_line = replicate 250 (CHR ''a'')"

definition long_content :: string where
  "long_content = concat (replicate 20 (long_line @ [NL])) @ long_line"

definition long_file :: IndexedFile where
  "long_file =
     \<lparr>path = ''long.txt'', content = long_content, mtime = 3000, size_bytes = 5270,
      extension = ''.txt''\<rparr>"

definition db_long_failed :: db where
  "db_long_failed =
     \<lparr>files = [\<lparr>f_id = 1, f_path = ''long.txt'', f_content = long_content, f_mtime = 3000,
                f_size = 5270, f_extension = ''.txt''\<rparr>],
      embeddings =
        map (\<lambda>k. \<lparr>e_file_id = 1, e_chunk_index = k, e_chunk_text = long_line,
                   e_embedding = [Fin 1]\<rparr>) [0 ..< 20],
      seq = 1, foreign_keys = True\<rparr>"

subsection \<open>handleIndexDirectory\<close>

text \<open>
  The caller of \<open>indexFiles\<close> in the tool layer. The file enumerator \<open>indexDirectory\<close> is a
  parameter that gives the list of files of a directory, or fails; a failure of either
  call leaves the handler by an exception. The result is the text of the reply, in which
  \<open>${files.length}\<close> is the decimal numeral of the length.
\<close>

datatype tool_error = EnumeratorError | StoreError error

definition digit :: "nat \<Rightarrow> char" where
  "digit d = ''0123456789'' ! d"

function decimal :: "nat \<Rightarrow> string" where
  "decimal n = (if n < 10 then [digit n] else decimal (n div 10) @ [digit (n mod 10)])"
  by pat_completeness auto
termination
  by (relation "measure (\<lambda>n. n)") auto

declare decimal.simps [simp del]

definition handleIndexDirectory ::
  "(string \<Rightarrow> IndexedFile list option) \<Rightarrow> 'e client \<Rightarrow> (jsnum \<Rightarrow> jsnum) \<Rightarrow> string \<Rightarrow> db \<times> 'e
   \<Rightarrow> (tool_error + string) \<times> db \<times> 'e" where
  "handleIndexDirectory indexDirectory client fround dirPath s =
     (case indexDirectory dirPath of
        None \<Rightarrow> (Inl EnumeratorError, s)
      | Some fs \<Rightarrow>
          (case indexFiles client fround fs s of
             (Inl err, s') \<Rightarrow> (Inl (StoreError err), s')
           | (Inr v, s') \<Rightarrow>
               (Inr (''Indexed '' @ decimal (length fs) @ '' files from '' @ dirPath), s')))"

text \<open>A number that is zero, or already NaN.\<close>

definition zn :: "jsnum \<Rightarrow> bool" where
  "zn x = (x = Fin 0 \<or> x = NaN)"

section \<open>Properties of the chunker\<close>

lemma chunkText_finish: "chunkText T B = finish (chunk_loop B (split_nl T) ([], []))"
  by (simp add: chunkText_def finish_def)

lemma is_space_NL: "is_space NL"
  by (simp add: is_space_def NL_def)

lemma split_nl_nonempty: "split_nl T \<noteq> []"
  by (induction T) (auto split: list.splits)

lemma buf_split_nl: "buf (split_nl T) = T @ [NL]"
  by (induction T) (auto simp: buf_def split: list.splits)

lemma join_split_nl: "join_nl (split_nl T) = T"
proof (induction T)
  case Nil
  show ?case by simp
next
  case (Cons c cs)
  obtain l ls where s: "split_nl cs = l # ls"
    using split_nl_nonempty [of cs] by (cases "split_nl cs") auto
  with Cons show ?case
    by (cases ls) auto
qed

lemma filter_dropWhile: "filter (\<lambda>c. \<not> P c) (dropWhile P s) = filter (\<lambda>c. \<not> P c) s"
  by (induction s) auto

lemma filter_trim: "filter (\<lambda>c. \<not> is_space c) (trim s) = filter (\<lambda>c. \<not> is_space c) s"
  by (simp add: trim_def filter_dropWhile flip: rev_filter)

lemma trim_empty_filter: "trim s = [] \<Longrightarrow> filter (\<lambda>c. \<not> is_space c) s = []"
  using filter_trim [of s] by simp

text \<open>Trimming only removes white space: the other characters go through the loop untouched.\<close>

lemma chunk_loop_content:
  "filter (\<lambda>c. \<not> is_space c) (concat (finish (chunk_loop B ls (chunks, cur)))) =
   filter (\<lambda>c. \<not> is_space c) (concat chunks @ cur @ buf ls)"
proof (induction ls arbitrary: chunks cur)
  case Nil
  show ?case
    by (simp add: finish_def buf_def filter_trim trim_empty_filter)
next
  case (Cons line ls)
  show ?case
    by (simp add: Cons.IH filter_trim) (simp add: buf_def)
qed

lemma chunkText_content:
  "filter (\<lambda>c. \<not> is_space c) (concat (chunkText T B)) = filter (\<lambda>c. \<not> is_space c) T"
  by (simp add: chunkText_finish chunk_loop_content buf_split_nl is_space_NL)

lemma join_nl_append:
  "a \<noteq> [] \<Longrightarrow> b \<noteq> [] \<Longrightarrow> join_nl (a @ b) = join_nl a @ NL # join_nl b"
  by (induction a rule: join_nl.induct) (auto simp: neq_Nil_conv)

lemma buf_join: "cs \<noteq> [] \<Longrightarrow> buf cs = join_nl cs @ [NL]"
  by (induction cs rule: join_nl.induct) (auto simp: buf_def)

lemma join_nl_clean:
  "cs \<noteq> [] \<Longrightarrow> \<forall>l\<in>set cs. clean_line l \<Longrightarrow> clean_line (join_nl cs)"
  by (induction cs rule: join_nl.induct) (auto simp: clean_line_def)

lemma trim_clean_NL:
  assumes c: "clean_line s"
  shows "trim (s @ [NL]) = s"
proof -
  from c obtain x xs where s: "s = x # xs" and x: "\<not> is_space x"
    by (cases s) (auto simp: clean_line_def)
  from c have "rev s \<noteq> []" "\<not> is_space (hd (rev s))"
    by (auto simp: clean_line_def hd_rev)
  then have d: "dropWhile is_space (rev s) = rev s"
    by (cases "rev s") auto
  have "dropWhile is_space (s @ [NL]) = s @ [NL]"
    using s x by simp
  then show ?thesis
    using d by (simp add: trim_def is_space_NL)
qed

lemma trim_buf: "cs \<noteq> [] \<Longrightarrow> \<forall>l\<in>set cs. clean_line l \<Longrightarrow> trim (buf cs) = join_nl cs"
  by (simp add: buf_join trim_clean_NL join_nl_clean)

text \<open>
  On clean lines a flushed buffer is the join of its lines, so the chunks added from a
  state whose buffer holds the lines \<open>cs\<close> join up to \<open>cs @ ls\<close>.
\<close>

lemma chunk_loop_exact:
  "\<forall>l\<in>set cs. clean_line l \<Longrightarrow> \<forall>l\<in>set ls. clean_line l \<Longrightarrow>
   \<exists>R. finish (chunk_loop B ls (chunks, buf cs)) = chunks @ R \<and>
       join_nl R = join_nl (cs @ ls) \<and> (R = [] \<longleftrightarrow> cs @ ls = [])"
proof (induction ls arbitrary: chunks cs)
  case Nil
  show ?case
  proof (cases "cs = []")
    case True
    then show ?thesis by (simp add: finish_def buf_def trim_def)
  next
    case False
    with Nil have "trim (buf cs) = join_nl cs" "clean_line (join_nl cs)"
      by (simp_all add: trim_buf join_nl_clean)
    then show ?thesis using False
      by (auto simp: finish_def clean_line_def)
  qed
next
  case (Cons line ls)
  have line: "clean_line line" and ls: "\<forall>l\<in>set ls. clean_line l"
    using Cons.prems by simp_all
  show ?case
  proof (cases "int (length (buf cs) + length line) > B \<and> buf cs \<noteq> []")
    case True
    then have ne: "cs \<noteq> []" by (auto simp: buf_def)
    have t: "trim (buf cs) = join_nl cs"
      using ne Cons.prems by (simp add: trim_buf)
    have l1: "\<forall>l\<in>set [line]. clean_line l" using line by simp
    from Cons.IH [OF l1 ls, of "chunks @ [join_nl cs]"]
    obtain R where R:
      "finish (chunk_loop B ls (chunks @ [join_nl cs], buf [line])) = (chunks @ [join_nl cs]) @ R"
      "join_nl R = join_nl ([line] @ ls)" "R \<noteq> []"
      by auto
    have b1: "buf [line] = line @ [NL]" by (simp add: buf_def)
    have "finish (chunk_loop B (line # ls) (chunks, buf cs)) = chunks @ (join_nl cs # R)"
      using True R(1) t b1 by simp
    moreover have "join_nl (join_nl cs # R) = join_nl (cs @ line # ls)"
      using R(2,3) ne join_nl_append [of cs "line # ls"] by (cases R) auto
    ultimately show ?thesis by blast
  next
    case False
    have l1: "\<forall>l\<in>set (cs @ [line]). clean_line l" using line Cons.prems by auto
    have b: "buf (cs @ [line]) = buf cs @ line @ [NL]" by (simp add: buf_def)
    from Cons.IH [OF l1 ls, of chunks] False b show ?thesis
      by auto
  qed
qed

lemma chunkText_exact:
  assumes a: "\<forall>l\<in>set (split_nl T). clean_line l"
  shows "join_nl (chunkText T B) = T"
proof -
  have e: "\<forall>l\<in>set ([]::string list). clean_line l" by simp
  from chunk_loop_exact [OF e a, of B "[]"] show ?thesis
    by (auto simp: chunkText_finish buf_def join_split_nl)
qed







text \<open>Lines too long to share a chunk each form their own: the chunks of the long file.\<close>

lemma split_nl_append_NL: "NL \<notin> set l \<Longrightarrow> split_nl (l @ NL # rest) = l # split_nl rest"
  by (induction l) (auto split: list.splits)

lemma split_nl_line: "NL \<notin> set l \<Longrightarrow> split_nl l = [l]"
  by (induction l) (auto split: list.splits)

lemma split_nl_lines:
  "NL \<notin> set l \<Longrightarrow> split_nl (concat (replicate n (l @ [NL])) @ l) = replicate (Suc n) l"
  by (induction n) (simp_all add: split_nl_line split_nl_append_NL)

lemma chunk_loop_long:
  "clean_line l \<Longrightarrow> B < int (length l + 1 + length l) \<Longrightarrow>
   chunk_loop B (replicate n l) (chunks, l @ [NL]) = (chunks @ replicate n l, l @ [NL])"
proof (induction n arbitrary: chunks)
  case 0
  show ?case by simp
next
  case (Suc n)
  from Suc.IH [OF Suc.prems, of "chunks @ [l]"] Suc.prems
  show ?case
    by (simp add: trim_clean_NL replicate_app_Cons_same)
qed

lemma long_line_facts:
  "clean_line long_line" "length long_line = 250" "NL \<notin> set long_line"
  by (simp_all add: long_line_def clean_line_def is_space_def NL_def)

lemma chunks_long: "chunkText long_content 500 = replicate 21 long_line"
proof -
  have s: "split_nl long_content = replicate 21 long_line"
    unfolding long_content_def using split_nl_lines [OF long_line_facts(3), of 20] by simp
  have r: "replicate 21 long_line = long_line # replicate 20 long_line"
    by (simp add: numeral_eq_Suc)
  have "chunk_loop 500 (replicate 20 long_line) ([], long_line @ [NL]) =
      ([] @ replicate 20 long_line, long_line @ [NL])"
    by (rule chunk_loop_long) (simp_all add: long_line_facts)
  then have "chunk_loop 500 (replicate 21 long_line) ([], []) =
      (replicate 20 long_line, long_line @ [NL])"
    by (simp add: r)
  then show ?thesis
    using long_line_facts(1)
    by (simp add: chunkText_def s trim_clean_NL clean_line_def replicate_append_same r)
qed

text \<open>
  C6: the chunker never produces an empty chunk. The flush at the end of \<open>chunkText\<close> tests
  the trimmed buffer, the flush inside the loop tests the buffer itself: a buffer of blank
  lines is pushed as an empty chunk when the next line does not fit. With the bound 500 of
  \<open>indexFiles\<close>, a text that starts with a blank line followed by a line of 500 characters
  gives the empty chunk first.
\<close>

theorem chunkText_empty_chunk:
  "chunkText (NL # replicate 500 (CHR ''a'')) 500 = [[], replicate 500 (CHR ''a'')]"
  by code_simp

section \<open>Properties of the sort\<close>

lemma mset_sort_insert: "mset (sort_insert cmp x xs) = add_mset x (mset xs)"
  by (induction xs) auto

lemma mset_js_sort: "mset (js_sort cmp xs) = mset xs"
  by (induction xs) (auto simp: js_sort_def mset_sort_insert)

lemma set_js_sort: "set (js_sort cmp xs) = set xs"
  using mset_js_sort [of cmp xs] by (metis set_mset_mset)

lemma js_sort_Cons: "js_sort cmp (x # xs) = sort_insert cmp x (js_sort cmp xs)"
  by (simp add: js_sort_def)

lemma js_sub_self_not_positive: "\<not> js_positive (js_sub v v)"
  by (cases v) (auto simp: js_sub_def)

lemma js_positive_sub: "u \<noteq> NaN \<Longrightarrow> v \<noteq> NaN \<Longrightarrow> js_positive (js_sub v u) = (\<not> js_ge u v)"
  by (cases u; cases v) (auto simp: js_sub_def)

lemma js_ge_total: "u \<noteq> NaN \<Longrightarrow> v \<noteq> NaN \<Longrightarrow> \<not> js_ge u v \<Longrightarrow> js_ge v u"
  by (cases u; cases v) auto

lemma js_ge_trans: "js_ge u v \<Longrightarrow> js_ge v w \<Longrightarrow> js_ge u w"
  by (cases u; cases v; cases w) auto

lemma filter_sort_insert:
  "filter (\<lambda>r. r_score r = s) (sort_insert compare_score x xs) = filter (\<lambda>r. r_score r = s) (x # xs)"
proof (induction xs)
  case Nil
  show ?case by simp
next
  case (Cons y ys)
  have "r_score x = r_score y \<Longrightarrow> \<not> js_positive (compare_score x y)"
    by (simp add: compare_score_def js_sub_self_not_positive)
  with Cons show ?case by auto
qed

lemma filter_js_sort:
  "filter (\<lambda>r. r_score r = s) (js_sort compare_score xs) = filter (\<lambda>r. r_score r = s) xs"
  by (induction xs) (simp_all add: js_sort_Cons filter_sort_insert, simp add: js_sort_def)

lemma set_sort_insert: "set (sort_insert cmp x xs) = insert x (set xs)"
  using mset_sort_insert [of cmp x xs] by (metis set_mset_mset set_mset_add_mset_insert)

lemma sorted_sort_insert:
  assumes nn: "r_score x \<noteq> NaN" "list_all (\<lambda>r. r_score r \<noteq> NaN) xs"
    and s: "sorted_wrt (\<lambda>a b. js_ge (r_score a) (r_score b)) xs"
  shows "sorted_wrt (\<lambda>a b. js_ge (r_score a) (r_score b)) (sort_insert compare_score x xs)"
  using nn(2) s
proof (induction xs)
  case Nil
  show ?case by simp
next
  case (Cons y ys)
  have y: "r_score y \<noteq> NaN" using Cons.prems(1) by simp
  show ?case
  proof (cases "js_positive (compare_score x y)")
    case True
    then have "js_ge (r_score y) (r_score x)"
      using nn(1) y by (simp add: compare_score_def js_positive_sub js_ge_total)
    with True Cons show ?thesis
      by (auto simp: set_sort_insert)
  next
    case False
    then have xy: "js_ge (r_score x) (r_score y)"
      using nn(1) y by (simp add: compare_score_def js_positive_sub)
    have "\<forall>z\<in>set ys. js_ge (r_score x) (r_score z)"
      using Cons.prems(2) xy by (auto intro: js_ge_trans)
    with False xy Cons.prems(2) show ?thesis by simp
  qed
qed

lemma sorted_js_sort:
  "list_all (\<lambda>r. r_score r \<noteq> NaN) xs \<Longrightarrow>
   sorted_wrt (\<lambda>a b. js_ge (r_score a) (r_score b)) (js_sort compare_score xs)"
proof (induction xs)
  case Nil
  show ?case by (simp add: js_sort_def)
next
  case (Cons x xs)
  then have "list_all (\<lambda>r. r_score r \<noteq> NaN) (js_sort compare_score xs)"
    by (simp add: list_all_iff set_js_sort)
  with Cons show ?case
    by (simp add: js_sort_Cons sorted_sort_insert)
qed

lemma sorted_wrt_take: "sorted_wrt P xs \<Longrightarrow> sorted_wrt P (take n xs)"
  by (metis append_take_drop_id sorted_wrt_append)

lemma slice0_nonneg: "0 \<le> limit \<Longrightarrow> slice0 limit xs = take (nat limit) xs"
  by (simp add: slice0_def)

section \<open>Properties of cosineSimilarity\<close>

lemma js_add_NaN_right: "js_add x NaN = NaN"
  by (cases x) auto

lemma js_mul_NaN_right: "js_mul x NaN = NaN"
  by (cases x) auto

lemma js_div_NaN_right: "js_div x NaN = NaN"
  by (cases x) auto

lemma zn_mul_left: "zn x \<Longrightarrow> zn (js_mul x y)"
  by (cases y) (auto simp: zn_def)

lemma zn_mul_right: "zn y \<Longrightarrow> zn (js_mul x y)"
  by (cases x) (auto simp: zn_def)

lemma zn_add: "zn x \<Longrightarrow> zn y \<Longrightarrow> zn (js_add x y)"
  by (auto simp: zn_def js_add_NaN_right)

lemma zn_sqrt: "zn x \<Longrightarrow> zn (js_sqrt x)"
  by (auto simp: zn_def)

lemma zn_div: "zn x \<Longrightarrow> zn y \<Longrightarrow> js_div x y = NaN"
  by (auto simp: zn_def)

lemma cosine_loop_NaN:
  "fst (cosine_loop a b i (NaN, normA, normB)) = NaN"
proof (induction "length a - i" arbitrary: i normA normB)
  case 0
  then show ?case by (simp add: cosine_loop.simps)
next
  case (Suc n)
  then have "n = length a - Suc i" "i < length a" by simp_all
  with Suc.hyps(1) show ?case
    by (subst cosine_loop.simps) simp
qed

lemma cosine_loop_short:
  "i \<le> length b \<Longrightarrow> length b < length a \<Longrightarrow> fst (cosine_loop a b i (dotProduct, normA, normB)) = NaN"
proof (induction "length b - i" arbitrary: i dotProduct normA normB)
  case 0
  then have "i = length b" by simp
  with 0 show ?case
    by (subst cosine_loop.simps)
      (simp add: js_index_def js_times_def js_mul_NaN_right js_add_NaN_right cosine_loop_NaN)
next
  case (Suc n)
  then have "n = length b - Suc i" "Suc i \<le> length b" "i < length a" by simp_all
  with Suc.hyps(1) Suc.prems show ?case
    by (subst cosine_loop.simps) simp
qed

lemma cosineSimilarity_short: "length b < length a \<Longrightarrow> cosineSimilarity a b = NaN"
  using cosine_loop_short [of 0 b a "Fin 0" "Fin 0" "Fin 0"]
  by (auto simp: cosineSimilarity_def split: prod.splits)

lemma cosine_loop_take:
  "length a \<le> length b \<Longrightarrow> cosine_loop a (take (length a) b) i acc = cosine_loop a b i acc"
proof (induction "length a - i" arbitrary: i acc)
  case 0
  then show ?case by (cases acc) (simp add: cosine_loop.simps)
next
  case (Suc n)
  then have n: "n = length a - Suc i" and i: "i < length a" by simp_all
  obtain d na nb where acc: "acc = (d, na, nb)" by (cases acc) auto
  have ix: "js_index (take (length a) b) i = js_index b i"
    using i Suc.prems by (simp add: js_index_def)
  show ?case
    unfolding acc
    by (subst (1 2) cosine_loop.simps) (simp add: i ix Suc.hyps(1) [OF n Suc.prems])
qed

lemma cosineSimilarity_take:
  "length a \<le> length b \<Longrightarrow> cosineSimilarity a b = cosineSimilarity a (take (length a) b)"
  by (simp add: cosineSimilarity_def cosine_loop_take)

lemma zn_zero: "zn (Fin 0)"
  by (simp add: zn_def)

lemma cosine_loop_zero_left:
  "list_all (\<lambda>x. x = Fin 0) a \<Longrightarrow> zn dotProduct \<Longrightarrow>
   (case cosine_loop a b i (dotProduct, Fin 0, normB) of (d', na', nb') \<Rightarrow> zn d' \<and> na' = Fin 0)"
proof (induction "length a - i" arbitrary: i dotProduct normB)
  case 0
  then show ?case by (simp add: cosine_loop.simps)
next
  case (Suc n)
  then have n: "n = length a - Suc i" and i: "i < length a" by simp_all
  have ai: "js_index a i = Number (Fin 0)"
    using i Suc.prems(1) by (simp add: js_index_def list_all_length)
  have z: "zn (js_add dotProduct (js_times (Number (Fin 0)) (js_index b i)))"
    unfolding js_times_def to_number.simps
    by (intro zn_add zn_mul_left zn_zero Suc.prems(2))
  have s: "js_add (Fin 0) (js_times (Number (Fin 0)) (Number (Fin 0))) = Fin 0"
    by (simp add: js_times_def)
  show ?case
    using Suc.hyps(1) [OF n Suc.prems(1) z]
    by (subst cosine_loop.simps) (simp only: i ai s if_True)
qed

lemma cosine_loop_zero_right:
  "list_all (\<lambda>x. x = Fin 0) b \<Longrightarrow> length a \<le> length b \<Longrightarrow> zn dotProduct \<Longrightarrow>
   (case cosine_loop a b i (dotProduct, normA, Fin 0) of (d', na', nb') \<Rightarrow> zn d' \<and> nb' = Fin 0)"
proof (induction "length a - i" arbitrary: i dotProduct normA)
  case 0
  then show ?case by (simp add: cosine_loop.simps)
next
  case (Suc n)
  then have n: "n = length a - Suc i" and i: "i < length a" by simp_all
  have bi: "js_index b i = Number (Fin 0)"
    using i Suc.prems(1,2) by (simp add: js_index_def list_all_length)
  have z: "zn (js_add dotProduct (js_times (js_index a i) (Number (Fin 0))))"
    unfolding js_times_def to_number.simps
    by (intro zn_add zn_mul_right zn_zero Suc.prems(3))
  have s: "js_add (Fin 0) (js_times (Number (Fin 0)) (Number (Fin 0))) = Fin 0"
    by (simp add: js_times_def)
  show ?case
    using Suc.hyps(1) [OF n Suc.prems(1,2) z]
    by (subst cosine_loop.simps) (simp only: i bi s if_True)
qed

lemma cosineSimilarity_zero_left:
  assumes "list_all (\<lambda>x. x = Fin 0) a"
  shows "cosineSimilarity a b = NaN"
proof -
  obtain d na nb where l: "cosine_loop a b 0 (Fin 0, Fin 0, Fin 0) = (d, na, nb)"
    by (cases "cosine_loop a b 0 (Fin 0, Fin 0, Fin 0)") auto
  with cosine_loop_zero_left [OF assms zn_zero, of b 0 "Fin 0"]
  have d: "zn d" and na: "na = Fin 0" by simp_all
  have "zn (js_mul (js_sqrt na) (js_sqrt nb))"
    unfolding na by (intro zn_mul_left zn_sqrt zn_zero)
  with d have "js_div d (js_mul (js_sqrt na) (js_sqrt nb)) = NaN"
    by (rule zn_div)
  then show ?thesis by (simp add: cosineSimilarity_def l)
qed

lemma cosineSimilarity_zero_right:
  assumes "list_all (\<lambda>x. x = Fin 0) b"
  shows "cosineSimilarity a b = NaN"
proof (cases "length a \<le> length b")
  case True
  obtain d na nb where l: "cosine_loop a b 0 (Fin 0, Fin 0, Fin 0) = (d, na, nb)"
    by (cases "cosine_loop a b 0 (Fin 0, Fin 0, Fin 0)") auto
  with cosine_loop_zero_right [OF assms True zn_zero, of 0 "Fin 0"]
  have d: "zn d" and nb: "nb = Fin 0" by simp_all
  have "zn (js_mul (js_sqrt na) (js_sqrt nb))"
    unfolding nb by (intro zn_mul_right zn_sqrt zn_zero)
  with d have "js_div d (js_mul (js_sqrt na) (js_sqrt nb)) = NaN"
    by (rule zn_div)
  then show ?thesis by (simp add: cosineSimilarity_def l)
next
  case False
  then show ?thesis by (simp add: cosineSimilarity_short)
qed

text \<open>The sample stores, scored and ranked.\<close>

lemma scored_sample_1: "scored [Fin 1] sample_db =
    [\<lparr>r_path = ''a.txt'', r_content = ''x'', r_score = NaN, r_mtime = 1000\<rparr>,
     \<lparr>r_path = ''a.txt'', r_content = ''y'', r_score = Fin 1, r_mtime = 1000\<rparr>]"
  by (simp add: scored_def joined_def sample_db_def
      score_row_def cosineSimilarity_def cosine_loop.simps js_index_def js_times_def)

lemma scored_sample_10: "scored [Fin 1, Fin 0] sample_db =
    [\<lparr>r_path = ''a.txt'', r_content = ''x'', r_score = NaN, r_mtime = 1000\<rparr>,
     \<lparr>r_path = ''a.txt'', r_content = ''y'', r_score = Fin 1, r_mtime = 1000\<rparr>]"
  by (simp add: scored_def joined_def sample_db_def
      score_row_def cosineSimilarity_def cosine_loop.simps js_index_def js_times_def)

lemma scored_sample_00: "scored [Fin 0, Fin 0] sample_db =
    [\<lparr>r_path = ''a.txt'', r_content = ''x'', r_score = NaN, r_mtime = 1000\<rparr>,
     \<lparr>r_path = ''a.txt'', r_content = ''y'', r_score = NaN, r_mtime = 1000\<rparr>]"
  by (simp add: scored_def joined_def sample_db_def
      score_row_def cosineSimilarity_def cosine_loop.simps js_index_def js_times_def)

lemma rank_sample_1: "rank [Fin 1] 5 sample_db =
    [\<lparr>r_path = ''a.txt'', r_content = ''x'', r_score = NaN, r_mtime = 1000\<rparr>,
     \<lparr>r_path = ''a.txt'', r_content = ''y'', r_score = Fin 1, r_mtime = 1000\<rparr>]"
  by (simp add: rank_def scored_sample_1 js_sort_def compare_score_def js_sub_def slice0_def)

lemma rank_sample_10: "rank [Fin 1, Fin 0] 5 sample_db =
    [\<lparr>r_path = ''a.txt'', r_content = ''x'', r_score = NaN, r_mtime = 1000\<rparr>,
     \<lparr>r_path = ''a.txt'', r_content = ''y'', r_score = Fin 1, r_mtime = 1000\<rparr>]"
  by (simp add: rank_def scored_sample_10 js_sort_def compare_score_def js_sub_def slice0_def)

lemma rank_sample_00: "rank [Fin 0, Fin 0] 5 sample_db =
    [\<lparr>r_path = ''a.txt'', r_content = ''x'', r_score = NaN, r_mtime = 1000\<rparr>,
     \<lparr>r_path = ''a.txt'', r_content = ''y'', r_score = NaN, r_mtime = 1000\<rparr>]"
  by (simp add: rank_def scored_sample_00 js_sort_def compare_score_def js_sub_def slice0_def)

lemma scored_sample3: "scored [Fin 0, Fin 1] sample_db3 =
     [\<lparr>r_path = ''a.txt'', r_content = ''x'', r_score = Fin 1, r_mtime = 1000\<rparr>,
      \<lparr>r_path = ''a.txt'', r_content = ''y'', r_score = Fin 0, r_mtime = 1000\<rparr>,
      \<lparr>r_path = ''a.txt'', r_content = ''z'', r_score = Fin 1, r_mtime = 1000\<rparr>]"
    by (simp add: scored_def joined_def sample_db3_def score_row_def cosineSimilarity_def
        cosine_loop.simps js_index_def js_times_def)

lemma sorted_sample3: "js_sort compare_score (scored [Fin 0, Fin 1] sample_db3) =
     [\<lparr>r_path = ''a.txt'', r_content = ''x'', r_score = Fin 1, r_mtime = 1000\<rparr>,
      \<lparr>r_path = ''a.txt'', r_content = ''z'', r_score = Fin 1, r_mtime = 1000\<rparr>,
      \<lparr>r_path = ''a.txt'', r_content = ''y'', r_score = Fin 0, r_mtime = 1000\<rparr>]"
    by (simp add: scored_sample3 js_sort_def compare_score_def js_sub_def)

lemma search_fixed:
  "search (fixed_client v) query limit (d, e) = (Inr (rank v limit d), Suc e)"
  by (simp add: search_def fixed_client_def)

text \<open>
  C9: the division of \<open>cosineSimilarity\<close> has no guard. When one of the two vectors holds
  only zeros, whatever the other is, the result is NaN and nothing fails; so \<open>search\<close>
  with a query vector of zeros returns its results, all of them with the score NaN.
\<close>

theorem cosineSimilarity_zero_vector:
  "(list_all (\<lambda>x. x = Fin 0) a \<or> list_all (\<lambda>x. x = Fin 0) b \<longrightarrow> cosineSimilarity a b = NaN) \<and>
   (client e [query] = (Some (q # others), e') \<and> list_all (\<lambda>x. x = Fin 0) q \<longrightarrow>
      search client query limit (d, e) = (Inr (rank q limit d), e') \<and>
      list_all (\<lambda>r. r_score r = NaN) (rank q limit d))"
proof -
  have "list_all (\<lambda>r. r_score r = NaN) (rank q limit d)" if z: "list_all (\<lambda>x. x = Fin 0) q"
  proof -
    have "list_all (\<lambda>r. r_score r = NaN) (scored q d)"
      using z by (auto simp: scored_def score_row_def list_all_iff cosineSimilarity_zero_left)
    then have "list_all (\<lambda>r. r_score r = NaN) (js_sort compare_score (scored q d))"
      by (simp add: list_all_iff set_js_sort)
    then show ?thesis
      by (auto simp: rank_def slice0_def list_all_iff dest: in_set_takeD)
  qed
  moreover have "search client query limit (d, e) = (Inr (rank q limit d), e')"
    if "client e [query] = (Some (q # others), e')"
    using that by (simp add: search_def)
  ultimately show ?thesis
    using cosineSimilarity_zero_left [of a b] cosineSimilarity_zero_right [of b a]
    by blast
qed

theorem cosineSimilarity_zero_vector_witness:
  "list_all (\<lambda>x. x = Fin 0) [Fin 0, Fin 0] \<and>
   cosine_loop [Fin 0, Fin 0] [Fin 1, Fin 2] 0 (Fin 0, Fin 0, Fin 0) = (Fin 0, Fin 0, Fin 5) \<and>
   js_mul (js_sqrt (Fin 0)) (js_sqrt (Fin 5)) = Fin 0 \<and>
   cosineSimilarity [Fin 0, Fin 0] [Fin 1, Fin 2] = NaN \<and>
   fixed_client [Fin 0, Fin 0] 0 [''q''] = (Some [[Fin 0, Fin 0]], 1) \<and>
   map r_score (rank [Fin 0, Fin 0] 5 sample_db) = [NaN, NaN] \<and>
   search (fixed_client [Fin 0, Fin 0]) ''q'' 5 (sample_db, 0) =
     (Inr (rank [Fin 0, Fin 0] 5 sample_db), 1)"
proof -
  have z: "list_all (\<lambda>x. x = Fin 0) [Fin 0, Fin 0]" by simp
  have c: "fixed_client [Fin 0, Fin 0] 0 [''q''] = (Some ([Fin 0, Fin 0] # []), 1)"
    by (simp add: fixed_client_def)
  have l: "cosine_loop [Fin 0, Fin 0] [Fin 1, Fin 2] 0 (Fin 0, Fin 0, Fin 0) = (Fin 0, Fin 0, Fin 5)"
    by (simp add: cosine_loop.simps js_index_def js_times_def)
  have m: "js_mul (js_sqrt (Fin 0)) (js_sqrt (Fin 5)) = Fin 0" by simp
  have r: "map r_score (rank [Fin 0, Fin 0] 5 sample_db) = [NaN, NaN]"
    by (simp add: rank_sample_00)
  have t: "cosineSimilarity [Fin 0, Fin 0] [Fin 1, Fin 2] = NaN \<and>
      search (fixed_client [Fin 0, Fin 0]) ''q'' 5 (sample_db, 0) =
        (Inr (rank [Fin 0, Fin 0] 5 sample_db), 1)"
    using cosineSimilarity_zero_vector
      [of "[Fin 0, Fin 0]" "[Fin 1, Fin 2]" "fixed_client [Fin 0, Fin 0]" 0 "''q''"
        "[Fin 0, Fin 0]" "[]" 1 5 sample_db] z c
    by blast
  show ?thesis
    using z c l m r t by blast
qed

text \<open>
  C4, as the specification states it: cosine similarity of two vectors of different
  dimensions is a fatal error of the search. \<open>cosineSimilarity\<close> never compares the
  lengths: a query vector of one component against the stored vectors of two components
  gives a result list, one of its scores being the number 1.
\<close>

theorem search_dimension_counterexample:
  "fixed_client [Fin 1] 0 [''q''] = (Some [[Fin 1]], 1) \<and>
   map e_embedding (embeddings sample_db) = [[Fin 0, Fin 0], [Fin 1, Fin 0]] \<and>
   fst (search (fixed_client [Fin 1]) ''q'' 5 (sample_db, 0)) =
     Inr [\<lparr>r_path = ''a.txt'', r_content = ''x'', r_score = NaN, r_mtime = 1000\<rparr>,
          \<lparr>r_path = ''a.txt'', r_content = ''y'', r_score = Fin 1, r_mtime = 1000\<rparr>]"
proof -
  have "map e_embedding (embeddings sample_db) = [[Fin 0, Fin 0], [Fin 1, Fin 0]]"
    by (simp add: sample_db_def)
  moreover have "fixed_client [Fin 1] 0 [''q''] = (Some [[Fin 1]], 1)"
    by (simp add: fixed_client_def)
  ultimately show ?thesis
    by (simp add: search_fixed rank_sample_1)
qed

text \<open>
  C4, amended: vectors of different dimensions raise nothing. \<open>cosineSimilarity\<close> reads the
  indices of the query vector: against a shorter stored vector the score is NaN, against a
  longer one it is the score of the query and the stored vector cut to the query's length;
  and \<open>search\<close> returns its ranked list whenever the client has answered with a vector.
\<close>

theorem cosineSimilarity_dimensions:
  "(length b < length a \<longrightarrow> cosineSimilarity a b = NaN) \<and>
   (length a \<le> length b \<longrightarrow> cosineSimilarity a b = cosineSimilarity a (take (length a) b)) \<and>
   (client e [query] = (Some (q # others), e') \<longrightarrow>
      search client query limit (d, e) = (Inr (rank q limit d), e'))"
proof -
  have "search client query limit (d, e) = (Inr (rank q limit d), e')"
    if "client e [query] = (Some (q # others), e')"
    using that by (simp add: search_def)
  then show ?thesis
    using cosineSimilarity_short [of b a] cosineSimilarity_take [of a b] by blast
qed

theorem cosineSimilarity_dimensions_witness:
  "length [Fin 1] < length [Fin 1, Fin 0, Fin 0] \<and>
   cosineSimilarity [Fin 1, Fin 0, Fin 0] [Fin 1] = NaN \<and>
   length [Fin 1] \<le> length [Fin 1, Fin 5] \<and>
   cosineSimilarity [Fin 1] [Fin 1, Fin 5] = cosineSimilarity [Fin 1] [Fin 1] \<and>
   cosineSimilarity [Fin 1] [Fin 1, Fin 5] = Fin 1 \<and>
   fixed_client [Fin 1] 0 [''q''] = (Some [[Fin 1]], 1) \<and>
   search (fixed_client [Fin 1]) ''q'' 5 (sample_db, 0) = (Inr (rank [Fin 1] 5 sample_db), 1)"
proof -
  have c: "fixed_client [Fin 1] 0 [''q''] = (Some ([Fin 1] # []), 1)"
    by (simp add: fixed_client_def)
  have v: "cosineSimilarity [Fin 1] [Fin 1, Fin 5] = Fin 1"
    by (simp add: cosineSimilarity_def cosine_loop.simps js_index_def js_times_def)
  have l1: "length [Fin 1] < length [Fin 1, Fin 0, Fin 0]" by simp
  have l2: "length [Fin 1] \<le> length [Fin 1, Fin 5]" by simp
  have t1: "cosineSimilarity [Fin 1, Fin 0, Fin 0] [Fin 1] = NaN"
    using cosineSimilarity_dimensions
      [of "[Fin 1]" "[Fin 1, Fin 0, Fin 0]" "fixed_client [Fin 1]" 0 "''q''" "[Fin 1]" "[]" 1 5
        sample_db] l1
    by blast
  have t2: "cosineSimilarity [Fin 1] [Fin 1, Fin 5] =
        cosineSimilarity [Fin 1] (take (length [Fin 1]) [Fin 1, Fin 5]) \<and>
      search (fixed_client [Fin 1]) ''q'' 5 (sample_db, 0) = (Inr (rank [Fin 1] 5 sample_db), 1)"
    using cosineSimilarity_dimensions
      [of "[Fin 1, Fin 5]" "[Fin 1]" "fixed_client [Fin 1]" 0 "''q''" "[Fin 1]" "[]" 1 5 sample_db]
      l2 c
    by blast
  have t3: "cosineSimilarity [Fin 1] [Fin 1, Fin 5] = cosineSimilarity [Fin 1] [Fin 1]"
    using t2 by simp
  show ?thesis
    using c v l1 l2 t1 t2 t3 by blast
qed

section \<open>Properties of search\<close>

text \<open>
  C3, as the specification states it: for every store and query the results come sorted by
  descending score, each score at least the next. A stored vector of zeros has the score
  NaN, which is in no order with any number: the two results of the sample store stand
  with NaN first and 1 second, and neither score is at least the other.
\<close>

theorem search_sorted_counterexample:
  "map r_score (rank [Fin 1, Fin 0] 5 sample_db) = [NaN, Fin 1] \<and>
   fst (search (fixed_client [Fin 1, Fin 0]) ''q'' 5 (sample_db, 0)) =
     Inr (rank [Fin 1, Fin 0] 5 sample_db) \<and>
   \<not> js_ge NaN (Fin 1) \<and> \<not> js_ge (Fin 1) NaN"
  by (simp add: search_fixed rank_sample_10)

text \<open>
  C3, amended: when no score is NaN and \<open>limit \<ge> 0\<close>, \<open>search\<close> returns the first \<open>limit\<close>
  entries of the sorted results; the sorted results are a permutation of the scored chunks,
  each score at least every later one, and chunks of equal score keep the order in which
  they were read; \<open>limit = 0\<close> gives the empty list and a limit of at least the number of
  chunks gives them all.
\<close>

theorem search_ranked:
  assumes c: "client e [query] = (Some (q # others), e')"
    and nn: "list_all (\<lambda>r. r_score r \<noteq> NaN) (scored q d)"
    and l: "0 \<le> limit"
  shows "search client query limit (d, e) =
           (Inr (take (nat limit) (js_sort compare_score (scored q d))), e') \<and>
         mset (js_sort compare_score (scored q d)) = mset (scored q d) \<and>
         sorted_wrt (\<lambda>a b. js_ge (r_score a) (r_score b)) (js_sort compare_score (scored q d)) \<and>
         (\<forall>s. filter (\<lambda>r. r_score r = s) (js_sort compare_score (scored q d)) =
              filter (\<lambda>r. r_score r = s) (scored q d)) \<and>
         sorted_wrt (\<lambda>a b. js_ge (r_score a) (r_score b)) (rank q limit d) \<and>
         rank q 0 d = [] \<and>
         (int (length (scored q d)) \<le> limit \<longrightarrow> rank q limit d = js_sort compare_score (scored q d))"
proof -
  have r: "rank q limit d = take (nat limit) (js_sort compare_score (scored q d))"
    using l by (simp add: rank_def slice0_nonneg)
  have s: "sorted_wrt (\<lambda>a b. js_ge (r_score a) (r_score b)) (js_sort compare_score (scored q d))"
    using nn by (rule sorted_js_sort)
  have len: "length (js_sort compare_score (scored q d)) = length (scored q d)"
    using mset_js_sort [of compare_score "scored q d"] by (metis size_mset)
  have "search client query limit (d, e) = (Inr (rank q limit d), e')"
    by (simp add: search_def c)
  moreover have "rank q 0 d = []"
    by (simp add: rank_def slice0_def)
  moreover have
    "int (length (scored q d)) \<le> limit \<longrightarrow> rank q limit d = js_sort compare_score (scored q d)"
    using len by (simp add: r)
  ultimately show ?thesis
    using r s by (simp add: mset_js_sort filter_js_sort sorted_wrt_take)
qed

theorem search_ranked_witness:
  "fixed_client [Fin 0, Fin 1] 0 [''q''] = (Some [[Fin 0, Fin 1]], 1) \<and>
   map r_score (scored [Fin 0, Fin 1] sample_db3) = [Fin 1, Fin 0, Fin 1] \<and>
   (0::int) \<le> 2 \<and>
   js_sort compare_score (scored [Fin 0, Fin 1] sample_db3) =
     [\<lparr>r_path = ''a.txt'', r_content = ''x'', r_score = Fin 1, r_mtime = 1000\<rparr>,
      \<lparr>r_path = ''a.txt'', r_content = ''z'', r_score = Fin 1, r_mtime = 1000\<rparr>,
      \<lparr>r_path = ''a.txt'', r_content = ''y'', r_score = Fin 0, r_mtime = 1000\<rparr>] \<and>
   search (fixed_client [Fin 0, Fin 1]) ''q'' 2 (sample_db3, 0) =
     (Inr [\<lparr>r_path = ''a.txt'', r_content = ''x'', r_score = Fin 1, r_mtime = 1000\<rparr>,
           \<lparr>r_path = ''a.txt'', r_content = ''z'', r_score = Fin 1, r_mtime = 1000\<rparr>], 1)"
proof -
  have c: "fixed_client [Fin 0, Fin 1] 0 [''q''] = (Some ([Fin 0, Fin 1] # []), 1)"
    by (simp add: fixed_client_def)
  have nn: "list_all (\<lambda>r. r_score r \<noteq> NaN) (scored [Fin 0, Fin 1] sample_db3)"
    by (simp add: scored_sample3)
  have l: "(0::int) \<le> 2" by simp
  have "search (fixed_client [Fin 0, Fin 1]) ''q'' 2 (sample_db3, 0) =
          (Inr (take (nat 2) (js_sort compare_score (scored [Fin 0, Fin 1] sample_db3))), 1)"
    using search_ranked
      [of "fixed_client [Fin 0, Fin 1]" 0 "''q''" "[Fin 0, Fin 1]" "[]" 1 sample_db3 2, OF c nn l]
    by (rule conjunct1)
  then have "search (fixed_client [Fin 0, Fin 1]) ''q'' 2 (sample_db3, 0) =
     (Inr [\<lparr>r_path = ''a.txt'', r_content = ''x'', r_score = Fin 1, r_mtime = 1000\<rparr>,
           \<lparr>r_path = ''a.txt'', r_content = ''z'', r_score = Fin 1, r_mtime = 1000\<rparr>], 1)"
    by (simp add: sorted_sample3)
  moreover have "map r_score (scored [Fin 0, Fin 1] sample_db3) = [Fin 1, Fin 0, Fin 1]"
    by (simp add: scored_sample3)
  ultimately show ?thesis
    using c sorted_sample3 by simp
qed

section \<open>Properties of getRecentFiles\<close>

lemma getRecentFiles_mset:
  "mset (getRecentFiles now days d) =
   mset (map (\<lambda>row. (f_path row, f_mtime row))
          (filter (\<lambda>row. now - days * 86400 * 1000 < f_mtime row) (files d)))"
  by (simp add: getRecentFiles_def)

lemma getRecentFiles_sorted:
  "sorted_wrt (\<lambda>x y. snd y \<le> snd x) (getRecentFiles now days d)"
proof -
  have "sorted (map f_mtime (sort_key f_mtime xs))" for xs :: "file_row list"
    by (rule sorted_sort_key)
  then have "sorted_wrt (\<lambda>x y. f_mtime x \<le> f_mtime y) (sort_key f_mtime xs)" for xs :: "file_row list"
    by (simp add: sorted_map)
  then have "sorted_wrt (\<lambda>x y. f_mtime y \<le> f_mtime x) (rev (sort_key f_mtime xs))" for xs :: "file_row list"
    by (simp add: sorted_wrt_rev)
  then show ?thesis
    by (simp add: getRecentFiles_def sorted_wrt_map)
qed

text \<open>
  C7: \<open>getRecentFiles\<close> with the cutoff \<open>now - days * 86400\<close> seconds returns exactly the
  file records modified strictly after the cutoff, newest first; with \<open>days = 0\<close> every
  file it returns was modified after \<open>now\<close>.
\<close>

theorem getRecentFiles_spec:
  "mset (getRecentFiles now days d) =
     mset (map (\<lambda>row. (f_path row, f_mtime row))
            (filter (\<lambda>row. now - days * 86400 * 1000 < f_mtime row) (files d))) \<and>
   sorted_wrt (\<lambda>x y. snd y \<le> snd x) (getRecentFiles now days d) \<and>
   list_all (\<lambda>x. now < snd x) (getRecentFiles now 0 d)"
proof -
  have "list_all (\<lambda>x. now < snd x) (getRecentFiles now 0 d)"
    by (simp add: getRecentFiles_def list_all_iff)
  then show ?thesis
    using getRecentFiles_mset getRecentFiles_sorted by blast
qed

section \<open>Properties of the store operations\<close>

lemma fold_max_ge: "(s::nat) \<le> fold max xs s \<and> (\<forall>x\<in>set xs. x \<le> fold max xs s)"
proof (induction xs arbitrary: s)
  case Nil
  show ?case by simp
next
  case (Cons x xs)
  from Cons [of "max x s"] show ?case by auto
qed

lemma fold_max_bounded: "\<forall>x\<in>set xs. x \<le> s \<Longrightarrow> fold max xs (s::nat) = s"
  by (induction xs) (auto simp: max_def)

lemma next_id_wf: "wf_db d \<Longrightarrow> next_id d = Suc (seq d)"
  by (simp add: next_id_def wf_db_def list_all_iff fold_max_bounded)

lemma insertEmbedding_ok:
  "parent_ok d fileId \<Longrightarrow>
   insertEmbedding fileId idx txt buffer d =
     Inr (d\<lparr>embeddings :=
            filter (\<lambda>e. \<not> (e_file_id e = fileId \<and> e_chunk_index e = idx)) (embeddings d)
            @ [\<lparr>e_file_id = fileId, e_chunk_index = idx, e_chunk_text = txt, e_embedding = buffer\<rparr>]\<rparr>)"
  by (auto simp: insertEmbedding_def parent_ok_def)

lemma insertEmbedding_frame:
  assumes "insertEmbedding fileId idx txt buffer d = Inr d'"
  shows "files d' = files d \<and> seq d' = seq d \<and> foreign_keys d' = foreign_keys d \<and>
         other_rows d' fileId = other_rows d fileId"
proof -
  have "filter (\<lambda>e. e_file_id e \<noteq> fileId)
          (filter (\<lambda>e. \<not> (e_file_id e = fileId \<and> e_chunk_index e = idx)) (embeddings d)) =
        filter (\<lambda>e. e_file_id e \<noteq> fileId) (embeddings d)"
    by (auto intro!: filter_cong)
  then show ?thesis
    using assms by (auto simp: insertEmbedding_def other_rows_def split: if_splits)
qed

lemma insertEmbedding_wf:
  assumes "insertEmbedding fileId idx txt buffer d = Inr d'" "wf_db d" "fileId \<le> seq d"
  shows "wf_db d'"
proof -
  let ?keep = "filter (\<lambda>e. \<not> (e_file_id e = fileId \<and> e_chunk_index e = idx)) (embeddings d)"
  have d': "d' = d\<lparr>embeddings := ?keep @
      [\<lparr>e_file_id = fileId, e_chunk_index = idx, e_chunk_text = txt, e_embedding = buffer\<rparr>]\<rparr>"
    using assms(1) by (auto simp: insertEmbedding_def split: if_splits)
  have "distinct (map (\<lambda>e. (e_file_id e, e_chunk_index e)) ?keep)"
    using assms(2) by (simp add: wf_db_def distinct_map_filter)
  moreover have "(fileId, idx) \<notin> set (map (\<lambda>e. (e_file_id e, e_chunk_index e)) ?keep)"
    by auto
  ultimately show ?thesis
    using assms(2,3) by (auto simp: d' wf_db_def list_all_iff)
qed

lemma insertEmbedding_no_orphans:
  assumes "insertEmbedding fileId idx txt buffer d = Inr d'" "no_orphans d"
    "fileId \<in> set (map f_id (files d))"
  shows "no_orphans d'"
  using assms by (auto simp: insertEmbedding_def no_orphans_def list_all_iff split: if_splits)

lemma insertEmbedding_chunk_rows:
  assumes "insertEmbedding fileId idx txt buffer d = Inr d'"
    and "\<forall>k\<in>set (map fst (chunk_rows d fileId)). k \<noteq> idx"
  shows "chunk_rows d' fileId = chunk_rows d fileId @ [(idx, txt)]"
proof -
  have "filter (\<lambda>e. e_file_id e = fileId)
          (filter (\<lambda>e. \<not> (e_file_id e = fileId \<and> e_chunk_index e = idx)) (embeddings d)) =
        filter (\<lambda>e. e_file_id e = fileId) (embeddings d)"
    using assms(2) by (auto simp: chunk_rows_def intro!: filter_cong)
  then show ?thesis
    using assms(1) by (auto simp: insertEmbedding_def chunk_rows_def split: if_splits)
qed

lemma store_batch_frame:
  "store_batch fround fileId i batch data j d = (res, d') \<Longrightarrow>
   files d' = files d \<and> seq d' = seq d \<and> foreign_keys d' = foreign_keys d \<and>
   other_rows d' fileId = other_rows d fileId"
proof (induction fround fileId i batch data j d rule: store_batch.induct)
  case (1 fround fileId i batch data j d)
  show ?case
  proof (cases "j < length batch \<and> j < length data")
    case False
    with "1.prems" show ?thesis
      by (subst (asm) store_batch.simps) (auto split: if_splits)
  next
    case True
    show ?thesis
    proof (cases "insertEmbedding fileId (i + j) (batch ! j) (map fround (data ! j)) d")
      case (Inl err)
      with True "1.prems" show ?thesis
        by (subst (asm) store_batch.simps) simp
    next
      case (Inr d1)
      with True "1.prems" have "store_batch fround fileId i batch data (Suc j) d1 = (res, d')"
        by (subst (asm) store_batch.simps) simp
      with "1.IH" [of d1] True Inr insertEmbedding_frame [OF Inr] show ?thesis
        by simp
    qed
  qed
qed

lemma store_batch_wf:
  "store_batch fround fileId i batch data j d = (res, d') \<Longrightarrow> wf_db d \<Longrightarrow> fileId \<le> seq d \<Longrightarrow>
   wf_db d'"
proof (induction fround fileId i batch data j d rule: store_batch.induct)
  case (1 fround fileId i batch data j d)
  show ?case
  proof (cases "j < length batch \<and> j < length data")
    case False
    with "1.prems" show ?thesis
      by (subst (asm) store_batch.simps) (auto split: if_splits)
  next
    case True
    show ?thesis
    proof (cases "insertEmbedding fileId (i + j) (batch ! j) (map fround (data ! j)) d")
      case (Inl err)
      with True "1.prems" show ?thesis
        by (subst (asm) store_batch.simps) simp
    next
      case (Inr d1)
      with True "1.prems" have "store_batch fround fileId i batch data (Suc j) d1 = (res, d')"
        by (subst (asm) store_batch.simps) simp
      moreover have "wf_db d1"
        using insertEmbedding_wf [OF Inr] "1.prems" by simp
      moreover have "fileId \<le> seq d1"
        using insertEmbedding_frame [OF Inr] "1.prems" by simp
      ultimately show ?thesis
        using "1.IH" [of d1] True Inr by simp
    qed
  qed
qed

lemma store_batch_no_orphans:
  "store_batch fround fileId i batch data j d = (res, d') \<Longrightarrow> no_orphans d \<Longrightarrow>
   fileId \<in> set (map f_id (files d)) \<Longrightarrow> no_orphans d'"
proof (induction fround fileId i batch data j d rule: store_batch.induct)
  case (1 fround fileId i batch data j d)
  show ?case
  proof (cases "j < length batch \<and> j < length data")
    case False
    with "1.prems" show ?thesis
      by (subst (asm) store_batch.simps) (auto split: if_splits)
  next
    case True
    show ?thesis
    proof (cases "insertEmbedding fileId (i + j) (batch ! j) (map fround (data ! j)) d")
      case (Inl err)
      with True "1.prems" show ?thesis
        by (subst (asm) store_batch.simps) simp
    next
      case (Inr d1)
      with True "1.prems" have "store_batch fround fileId i batch data (Suc j) d1 = (res, d')"
        by (subst (asm) store_batch.simps) simp
      moreover have "no_orphans d1"
        using insertEmbedding_no_orphans [OF Inr] "1.prems" by simp
      moreover have "fileId \<in> set (map f_id (files d1))"
        using insertEmbedding_frame [OF Inr] "1.prems" by simp
      ultimately show ?thesis
        using "1.IH" [of d1] True Inr by simp
    qed
  qed
qed

lemma store_batch_rows:
  "store_batch fround fileId i batch data j d = (res, d') \<Longrightarrow> parent_ok d fileId \<Longrightarrow>
   \<forall>k\<in>set (map fst (chunk_rows d fileId)). k < i + j \<Longrightarrow> j \<le> length batch \<Longrightarrow>
   res \<noteq> Some EmbeddingError \<and>
   (res = None \<longrightarrow>
      chunk_rows d' fileId = chunk_rows d fileId @ map (\<lambda>k. (i + k, batch ! k)) [j ..< length batch])"
proof (induction fround fileId i batch data j d rule: store_batch.induct)
  case (1 fround fileId i batch data j d)
  show ?case
  proof (cases "j < length batch")
    case False
    with "1.prems" show ?thesis
      by (subst (asm) store_batch.simps) auto
  next
    case jb: True
    show ?thesis
    proof (cases "j < length data")
      case False
      with jb "1.prems" show ?thesis
        by (subst (asm) store_batch.simps) auto
    next
      case jd: True
      from insertEmbedding_ok [OF "1.prems"(2)]
      obtain d1 where Inr: "insertEmbedding fileId (i + j) (batch ! j) (map fround (data ! j)) d = Inr d1"
        by blast
      with jb jd "1.prems" have sb: "store_batch fround fileId i batch data (Suc j) d1 = (res, d')"
        by (subst (asm) store_batch.simps) simp
      have rows1: "chunk_rows d1 fileId = chunk_rows d fileId @ [(i + j, batch ! j)]"
        using insertEmbedding_chunk_rows [OF Inr] "1.prems"(3) by fastforce
      have p1: "parent_ok d1 fileId"
        using insertEmbedding_frame [OF Inr] "1.prems"(2) by (simp add: parent_ok_def)
      have b1: "\<forall>k\<in>set (map fst (chunk_rows d1 fileId)). k < i + Suc j"
        using "1.prems"(3) by (auto simp: rows1)
      from "1.IH" [OF jb jd Inr sb p1 b1] jb
      have "res \<noteq> Some EmbeddingError \<and>
        (res = None \<longrightarrow> chunk_rows d' fileId =
           chunk_rows d1 fileId @ map (\<lambda>k. (i + k, batch ! k)) [Suc j ..< length batch])"
        by simp
      then show ?thesis
        using jb by (simp add: rows1 upt_conv_Cons)
    qed
  qed
qed

lemma embed_batches_cases:
  assumes "embed_batches client fround fileId chunks i (d, e) = (res, d', e')"
  obtains
    (finished) "\<not> i < length chunks" "res = None" "d' = d" "e' = e"
  | (client_failed) "i < length chunks"
      "client e (slice chunks i (i + batchSize)) = (None, e')" "res = Some EmbeddingError" "d' = d"
  | (store_failed) err data where "i < length chunks"
      "client e (slice chunks i (i + batchSize)) = (Some data, e')"
      "store_batch fround fileId i (slice chunks i (i + batchSize)) data 0 d = (Some err, d')"
      "res = Some err"
  | (continue) data e1 d1 where "i < length chunks"
      "client e (slice chunks i (i + batchSize)) = (Some data, e1)"
      "store_batch fround fileId i (slice chunks i (i + batchSize)) data 0 d = (None, d1)"
      "embed_batches client fround fileId chunks (i + batchSize) (d1, e1) = (res, d', e')"
proof (cases "i < length chunks")
  case False
  with assms finished show ?thesis
    by (subst (asm) embed_batches.simps) simp
next
  case True
  obtain r e1 where c: "client e (slice chunks i (i + batchSize)) = (r, e1)"
    by (cases "client e (slice chunks i (i + batchSize))") auto
  show ?thesis
  proof (cases r)
    case None
    with assms True c client_failed show ?thesis
      by (subst (asm) embed_batches.simps) simp
  next
    case (Some data)
    obtain r2 d1 where sb:
      "store_batch fround fileId i (slice chunks i (i + batchSize)) data 0 d = (r2, d1)"
      by (cases "store_batch fround fileId i (slice chunks i (i + batchSize)) data 0 d") auto
    show ?thesis
    proof (cases r2)
      case None
      with assms True c Some sb continue show ?thesis
        by (subst (asm) embed_batches.simps) simp
    next
      case (Some err)
      with assms True c \<open>r = Some data\<close> sb
      have "res = Some err" "d' = d1" "e' = e1"
        by (subst (asm) embed_batches.simps, simp)+
      with True c \<open>r = Some data\<close> sb Some store_failed show ?thesis
        by blast
    qed
  qed
qed

lemma embed_batches_frame:
  "embed_batches client fround fileId chunks i (d, e) = (res, d', e') \<Longrightarrow>
   files d' = files d \<and> seq d' = seq d \<and> foreign_keys d' = foreign_keys d \<and>
   other_rows d' fileId = other_rows d fileId"
proof (induction "length chunks - i" arbitrary: i d e rule: less_induct)
  case less
  from less.prems show ?case
  proof (cases rule: embed_batches_cases)
    case (continue data e1 d1)
    have "length chunks - (i + batchSize) < length chunks - i"
      using continue(1) by (simp add: batchSize_def)
    from less.hyps [OF this continue(4)] store_batch_frame [OF continue(3)]
    show ?thesis by simp
  next
    case (store_failed err data)
    from store_batch_frame [OF store_failed(3)] show ?thesis by simp
  qed simp_all
qed

lemma embed_batches_wf:
  "embed_batches client fround fileId chunks i (d, e) = (res, d', e') \<Longrightarrow>
   wf_db d \<Longrightarrow> fileId \<le> seq d \<Longrightarrow> wf_db d'"
proof (induction "length chunks - i" arbitrary: i d e rule: less_induct)
  case less
  from less.prems(1) show ?case
  proof (cases rule: embed_batches_cases)
    case (continue data e1 d1)
    have "length chunks - (i + batchSize) < length chunks - i"
      using continue(1) by (simp add: batchSize_def)
    moreover have "wf_db d1" "fileId \<le> seq d1"
      using store_batch_wf [OF continue(3)] store_batch_frame [OF continue(3)] less.prems
      by simp_all
    ultimately show ?thesis
      using less.hyps continue(4) by blast
  next
    case (store_failed err data)
    from store_batch_wf [OF store_failed(3) less.prems(2,3)] show ?thesis .
  qed (use less.prems in simp_all)
qed

lemma embed_batches_no_orphans:
  "embed_batches client fround fileId chunks i (d, e) = (res, d', e') \<Longrightarrow>
   no_orphans d \<Longrightarrow> fileId \<in> set (map f_id (files d)) \<Longrightarrow> no_orphans d'"
proof (induction "length chunks - i" arbitrary: i d e rule: less_induct)
  case less
  from less.prems(1) show ?case
  proof (cases rule: embed_batches_cases)
    case (continue data e1 d1)
    have "length chunks - (i + batchSize) < length chunks - i"
      using continue(1) by (simp add: batchSize_def)
    moreover have "no_orphans d1" "fileId \<in> set (map f_id (files d1))"
      using store_batch_no_orphans [OF continue(3)] store_batch_frame [OF continue(3)] less.prems
      by simp_all
    ultimately show ?thesis
      using less.hyps continue(4) by blast
  next
    case (store_failed err data)
    from store_batch_no_orphans [OF store_failed(3) less.prems(2,3)] show ?thesis .
  qed (use less.prems in simp_all)
qed

lemma enum_nth: "enum n xs = map (\<lambda>k. (k, xs ! k)) [0 ..< min n (length xs)]"
  by (auto simp: enum_def list_eq_iff_nth_eq)

lemma enum_fst_less: "k \<in> set (map fst (enum n xs)) \<Longrightarrow> k < n"
  by (auto simp: enum_nth)

lemma enum_all: "length xs \<le> n \<Longrightarrow> enum n xs = enum (length xs) xs"
  by (simp add: enum_nth min_def)

lemma enum_append_slice:
  assumes i: "i < length xs"
  shows "enum i xs @ map (\<lambda>k. (i + k, slice xs i (i + n) ! k)) [0 ..< length (slice xs i (i + n))] =
         enum (i + n) xs"
proof -
  let ?m = "length (slice xs i (i + n))"
  have m: "i + ?m = min (i + n) (length xs)"
    using i by (auto simp: slice_def min_def)
  have "map (\<lambda>k. (i + k, slice xs i (i + n) ! k)) [0 ..< ?m] = map (\<lambda>k. (i + k, xs ! (i + k))) [0 ..< ?m]"
    using i by (intro map_cong) (simp_all add: slice_def)
  also have "\<dots> = map (\<lambda>k. (k, xs ! k)) (map (\<lambda>k. i + k) [0 ..< ?m])"
    by (simp add: comp_def)
  also have "map (\<lambda>k. i + k) [0 ..< ?m] = [i ..< i + ?m]"
    using map_add_upt [of i ?m] by (simp add: add.commute)
  finally have "enum i xs @ map (\<lambda>k. (i + k, slice xs i (i + n) ! k)) [0 ..< ?m] =
      map (\<lambda>k. (k, xs ! k)) ([0 ..< i] @ [i ..< i + ?m])"
    using i by (simp add: enum_nth min_def)
  also have "[0 ..< i] @ [i ..< i + ?m] = [0 ..< i + ?m]"
    using upt_add_eq_append [of 0 i ?m] by simp
  finally show ?thesis
    by (simp only: m enum_nth)
qed

lemma embed_batches_rows:
  "embed_batches client fround fileId chunks i (d, e) = (res, d', e') \<Longrightarrow>
   parent_ok d fileId \<Longrightarrow> chunk_rows d fileId = enum i chunks \<Longrightarrow>
   (res = None \<longrightarrow> chunk_rows d' fileId = enum (length chunks) chunks) \<and>
   (res = Some EmbeddingError \<longrightarrow>
      (\<exists>m. i + batchSize * m < length chunks \<and>
           chunk_rows d' fileId = enum (i + batchSize * m) chunks))"
proof (induction "length chunks - i" arbitrary: i d e rule: less_induct)
  case less
  have bound: "\<forall>k\<in>set (map fst (chunk_rows d fileId)). k < i + 0"
    using less.prems(3) enum_fst_less [of _ i chunks] by simp
  from less.prems(1) show ?case
  proof (cases rule: embed_batches_cases)
    case finished
    then have "enum i chunks = enum (length chunks) chunks"
      by (intro enum_all) simp
    with finished less.prems(3) show ?thesis
      by simp
  next
    case client_failed
    have "i + batchSize * 0 < length chunks \<and> chunk_rows d' fileId = enum (i + batchSize * 0) chunks"
      using client_failed less.prems(3) by simp
    then have "\<exists>m. i + batchSize * m < length chunks \<and>
        chunk_rows d' fileId = enum (i + batchSize * m) chunks"
      by (rule exI)
    with client_failed show ?thesis by simp
  next
    case (store_failed err data)
    from store_batch_rows [OF store_failed(3) less.prems(2) bound]
    have "Some err \<noteq> Some EmbeddingError" by simp
    with store_failed(4) show ?thesis by simp
  next
    case (continue data e1 d1)
    have m: "length chunks - (i + batchSize) < length chunks - i"
      using continue(1) by (simp add: batchSize_def)
    from store_batch_rows [OF continue(3) less.prems(2) bound]
    have "chunk_rows d1 fileId = chunk_rows d fileId @
        map (\<lambda>k. (i + k, slice chunks i (i + batchSize) ! k))
          [0 ..< length (slice chunks i (i + batchSize))]"
      by simp
    then have r1: "chunk_rows d1 fileId = enum (i + batchSize) chunks"
      unfolding less.prems(3) by (simp only: enum_append_slice [OF continue(1)])
    have p1: "parent_ok d1 fileId"
      using store_batch_frame [OF continue(3)] less.prems(2) by (simp add: parent_ok_def)
    note ih = less.hyps [OF m continue(4) p1 r1]
    show ?thesis
    proof (intro conjI impI)
      assume "res = None"
      with ih show "chunk_rows d' fileId = enum (length chunks) chunks" by blast
    next
      assume "res = Some EmbeddingError"
      with ih obtain m where m: "i + batchSize + batchSize * m < length chunks"
        "chunk_rows d' fileId = enum (i + batchSize + batchSize * m) chunks"
        by blast
      have "i + batchSize * Suc m = i + batchSize + batchSize * m" by simp
      with m have "i + batchSize * Suc m < length chunks \<and>
          chunk_rows d' fileId = enum (i + batchSize * Suc m) chunks"
        by (simp only:)
      then show "\<exists>m. i + batchSize * m < length chunks \<and>
          chunk_rows d' fileId = enum (i + batchSize * m) chunks"
        by (rule exI)
    qed
  qed
qed

lemma embed_batches_answered:
  "embed_batches client fround fileId chunks i (d, e) = (Some EmbeddingError, d', e') \<Longrightarrow>
   parent_ok d fileId \<Longrightarrow> chunk_rows d fileId = enum i chunks \<Longrightarrow>
   i + batchSize * answered_batches client chunks i e < length chunks \<and>
   chunk_rows d' fileId = enum (i + batchSize * answered_batches client chunks i e) chunks"
proof (induction "length chunks - i" arbitrary: i d e rule: less_induct)
  case less
  have bound: "\<forall>k\<in>set (map fst (chunk_rows d fileId)). k < i + 0"
    using less.prems(3) enum_fst_less [of _ i chunks] by simp
  from less.prems(1) show ?case
  proof (cases rule: embed_batches_cases)
    case finished
    then show ?thesis by simp
  next
    case client_failed
    then have "answered_batches client chunks i e = 0"
      by (subst answered_batches.simps) simp
    with client_failed less.prems(3) show ?thesis by simp
  next
    case (store_failed err data)
    from store_batch_rows [OF store_failed(3) less.prems(2) bound]
    have "Some err \<noteq> Some EmbeddingError" by simp
    with store_failed(4) show ?thesis by simp
  next
    case (continue data e1 d1)
    have m: "length chunks - (i + batchSize) < length chunks - i"
      using continue(1) by (simp add: batchSize_def)
    from store_batch_rows [OF continue(3) less.prems(2) bound]
    have "chunk_rows d1 fileId = chunk_rows d fileId @
        map (\<lambda>k. (i + k, slice chunks i (i + batchSize) ! k))
          [0 ..< length (slice chunks i (i + batchSize))]"
      by simp
    then have r1: "chunk_rows d1 fileId = enum (i + batchSize) chunks"
      unfolding less.prems(3) by (simp only: enum_append_slice [OF continue(1)])
    have p1: "parent_ok d1 fileId"
      using store_batch_frame [OF continue(3)] less.prems(2) by (simp add: parent_ok_def)
    note ih = less.hyps [OF m continue(4) p1 r1]
    have a: "answered_batches client chunks i e =
        Suc (answered_batches client chunks (i + batchSize) e1)"
      using continue(1,2) by (subst answered_batches.simps) simp
    have "i + batchSize * Suc n = i + batchSize + batchSize * n" for n by simp
    with ih show ?thesis
      by (simp only: a)
  qed
qed

lemma filter_filter_subsumed:
  "(\<And>x. x \<in> set xs \<Longrightarrow> P x \<Longrightarrow> Q x) \<Longrightarrow> filter P (filter Q xs) = filter P xs"
  by (induction xs) auto

lemma filter_other_rows:
  "k \<noteq> fileId \<Longrightarrow>
   filter (\<lambda>e. e_file_id e = k) (embeddings d) = filter (\<lambda>e. e_file_id e = k) (other_rows d fileId)"
  by (auto simp: other_rows_def intro!: filter_cong)

lemma path_view_other_rows:
  assumes f: "files d' = files d" and o: "other_rows d' fileId = other_rows d fileId"
    and n: "\<forall>r\<in>set (files d). f_path r = p \<longrightarrow> f_id r \<noteq> fileId"
  shows "path_view d' p = path_view d p"
proof -
  have "filter (\<lambda>e. e_file_id e = f_id r) (embeddings d') =
        filter (\<lambda>e. e_file_id e = f_id r) (embeddings d)"
    if "r \<in> set (filter (\<lambda>r. f_path r = p) (files d))" for r
  proof -
    from that n have "f_id r \<noteq> fileId" by simp
    then show ?thesis
      using filter_other_rows [of "f_id r" fileId d'] filter_other_rows [of "f_id r" fileId d] o
      by simp
  qed
  then show ?thesis
    by (simp add: path_view_def f)
qed

lemma insertFile_fields:
  assumes "insertFile g d = (fileId, d1)"
  shows "fileId = next_id d"
    and "files d1 = filter (\<lambda>r. f_path r \<noteq> path g) (files d) @
           [\<lparr>f_id = fileId, f_path = path g, f_content = content g, f_mtime = mtime g,
             f_size = size_bytes g, f_extension = extension g\<rparr>]"
    and "embeddings d1 =
           (if foreign_keys d
            then filter (\<lambda>e. e_file_id e \<notin> set (map f_id (filter (\<lambda>r. f_path r = path g) (files d))))
                   (embeddings d)
            else embeddings d)"
    and "seq d1 = fileId" and "foreign_keys d1 = foreign_keys d"
  using assms by (auto simp: insertFile_def Let_def)

lemma insertFile_wf:
  assumes wf: "wf_db d" and i: "insertFile g d = (fileId, d1)"
  shows "wf_db d1" and "fileId = Suc (seq d)" and "chunk_rows d1 fileId = []"
    and "parent_ok d1 fileId" and "fileId \<in> set (map f_id (files d1))"
proof -
  note fs = insertFile_fields [OF i]
  show id: "fileId = Suc (seq d)"
    using fs(1) wf by (simp add: next_id_wf)
  have old: "\<forall>r\<in>set (files d). f_id r \<le> seq d" "\<forall>e\<in>set (embeddings d). e_file_id e \<le> seq d"
    using wf by (simp_all add: wf_db_def list_all_iff)
  have sub: "set (embeddings d1) \<subseteq> set (embeddings d)"
    by (auto simp: fs(3))
  have de: "distinct (map (\<lambda>e. (e_file_id e, e_chunk_index e)) (embeddings d1))"
    using wf by (simp add: fs(3) wf_db_def distinct_map_filter)
  have df: "distinct (map f_id (files d1))" "distinct (map f_path (files d1))"
    using wf old(1) id by (auto simp: fs(2) wf_db_def distinct_map_filter)
  have "\<forall>e\<in>set (embeddings d1). e_file_id e \<le> fileId"
    using old(2) sub id by (auto dest: subsetD le_SucI)
  moreover have "\<forall>r\<in>set (files d1). f_id r \<le> fileId"
    using old(1) id by (auto simp: fs(2) dest: le_SucI)
  ultimately show "wf_db d1"
    using de df by (simp add: wf_db_def list_all_iff fs(4))
  have "e_file_id x \<noteq> fileId" if "x \<in> set (embeddings d1)" for x
  proof -
    from that sub have "x \<in> set (embeddings d)" by blast
    with old(2) have "e_file_id x \<le> seq d" by blast
    with id show ?thesis by simp
  qed
  then show "chunk_rows d1 fileId = []"
    by (simp add: chunk_rows_def filter_empty_conv)
  show "fileId \<in> set (map f_id (files d1))"
    by (simp add: fs(2))
  then show "parent_ok d1 fileId"
    by (simp add: parent_ok_def)
qed

lemma insertFile_path_view:
  assumes wf: "wf_db d" and i: "insertFile g d = (fileId, d1)" and p: "p \<noteq> path g"
  shows "path_view d1 p = path_view d p"
proof -
  note fs = insertFile_fields [OF i]
  have f: "filter (\<lambda>r. f_path r = p) (files d1) = filter (\<lambda>r. f_path r = p) (files d)"
    using p by (auto simp: fs(2) intro!: filter_cong)
  have "filter (\<lambda>e. e_file_id e = f_id r) (embeddings d1) =
        filter (\<lambda>e. e_file_id e = f_id r) (embeddings d)"
    if r: "r \<in> set (filter (\<lambda>r. f_path r = p) (files d))" for r
  proof (cases "foreign_keys d")
    case False
    then show ?thesis by (simp add: fs(3))
  next
    case True
    have "f_id r \<notin> set (map f_id (filter (\<lambda>r. f_path r = path g) (files d)))"
    proof
      assume "f_id r \<in> set (map f_id (filter (\<lambda>r. f_path r = path g) (files d)))"
      then obtain r' where r': "r' \<in> set (files d)" "f_path r' = path g" "f_id r' = f_id r"
        by auto
      have "inj_on f_id (set (files d))"
        using wf by (simp add: wf_db_def distinct_map)
      with r r' have "r' = r" by (auto dest: inj_onD)
      with r r' p show False by simp
    qed
    then have "filter (\<lambda>e. e_file_id e = f_id r)
        (filter (\<lambda>e. e_file_id e \<notin> set (map f_id (filter (\<lambda>r. f_path r = path g) (files d))))
          (embeddings d)) =
        filter (\<lambda>e. e_file_id e = f_id r) (embeddings d)"
      by (intro filter_filter_subsumed) simp
    then show ?thesis
      using True by (simp add: fs(3))
  qed
  then show ?thesis
    by (simp add: path_view_def f)
qed

lemma insertFile_no_orphans:
  assumes i: "insertFile g d = (fileId, d1)" and fk: "foreign_keys d" and no: "no_orphans d"
  shows "no_orphans d1"
proof -
  note fs = insertFile_fields [OF i]
  have "e_file_id x \<in> set (map f_id (files d1))" if x: "x \<in> set (embeddings d1)" for x
  proof -
    from x fk have xe: "x \<in> set (embeddings d)"
      and xn: "e_file_id x \<notin> set (map f_id (filter (\<lambda>r. f_path r = path g) (files d)))"
      by (simp_all add: fs(3))
    from xe no obtain r where r: "r \<in> set (files d)" "f_id r = e_file_id x"
      by (auto simp: no_orphans_def list_all_iff)
    have "f_path r \<noteq> path g"
    proof
      assume "f_path r = path g"
      with r(1) have "r \<in> set (filter (\<lambda>r. f_path r = path g) (files d))"
        by simp
      then have "f_id r \<in> set (map f_id (filter (\<lambda>r. f_path r = path g) (files d)))"
        by (metis image_eqI set_map)
      with xn r(2) show False by simp
    qed
    with r have "r \<in> set (files d1)" by (simp add: fs(2))
    with r(2) show ?thesis by (metis image_eqI set_map)
  qed
  then show ?thesis
    by (simp add: no_orphans_def list_all_iff)
qed

section \<open>Properties of indexFiles\<close>

lemma index_file_unfold:
  assumes "index_file client fround g (d, e) = (res, d', e')"
  obtains fileId d1 where "insertFile g d = (fileId, d1)"
    and "embed_batches client fround fileId (chunkText (content g) 500) 0 (d1, e) = (res, d', e')"
  using assms by (auto simp: index_file_def split: prod.splits)

lemma held_cong: "path_view d' (path g) = path_view d (path g) \<Longrightarrow> held d' g n = held d g n"
  by (simp add: held_def)

lemma held_new_row:
  assumes f: "files d' = filter (\<lambda>r. f_path r \<noteq> path g) old @
           [\<lparr>f_id = fileId, f_path = path g, f_content = content g, f_mtime = mtime g,
             f_size = size_bytes g, f_extension = extension g\<rparr>]"
    and c: "chunk_rows d' fileId = enum n (chunkText (content g) 500)"
  shows "held d' g n"
proof -
  have "filter (\<lambda>r. f_path r = path g) (filter (\<lambda>r. f_path r \<noteq> path g) old) = []"
    by (simp add: filter_empty_conv)
  then have "path_view d' (path g) =
      [(\<lparr>f_id = fileId, f_path = path g, f_content = content g, f_mtime = mtime g,
         f_size = size_bytes g, f_extension = extension g\<rparr>,
        filter (\<lambda>e. e_file_id e = fileId) (embeddings d'))]"
    by (simp add: path_view_def f)
  then show ?thesis
    using c by (simp add: held_def chunk_rows_def enum_def)
qed

lemma index_file_props:
  assumes wf: "wf_db d" and ix: "index_file client fround g (d, e) = (res, d', e')"
  shows "wf_db d'"
    and "foreign_keys d' = foreign_keys d"
    and "files d' = files (snd (insertFile g d))"
    and "p \<noteq> path g \<Longrightarrow> path_view d' p = path_view d p"
    and "res = None \<Longrightarrow> indexed d' g"
    and "res = Some EmbeddingError \<Longrightarrow>
           \<exists>m. batchSize * m < length (chunkText (content g) 500) \<and> held d' g (batchSize * m)"
    and "foreign_keys d \<Longrightarrow> no_orphans d \<Longrightarrow> no_orphans d'"
proof -
  from ix obtain fileId d1 where i: "insertFile g d = (fileId, d1)"
    and eb: "embed_batches client fround fileId (chunkText (content g) 500) 0 (d1, e) = (res, d', e')"
    by (rule index_file_unfold)
  note fs = insertFile_fields [OF i]
  note w1 = insertFile_wf [OF wf i]
  note fr = embed_batches_frame [OF eb]
  have start: "chunk_rows d1 fileId = enum 0 (chunkText (content g) 500)"
    by (simp add: w1(3) enum_def)
  note rows = embed_batches_rows [OF eb w1(4) start]
  show "wf_db d'"
    using embed_batches_wf [OF eb w1(1)] fs(4) by simp
  show "foreign_keys d' = foreign_keys d"
    using fr fs(5) by simp
  show "files d' = files (snd (insertFile g d))"
    using fr i by simp
  have f': "files d' = filter (\<lambda>r. f_path r \<noteq> path g) (files d) @
           [\<lparr>f_id = fileId, f_path = path g, f_content = content g, f_mtime = mtime g,
             f_size = size_bytes g, f_extension = extension g\<rparr>]"
    using fr fs(2) by simp
  show "path_view d' p = path_view d p" if p: "p \<noteq> path g"
  proof -
    have "\<forall>r\<in>set (files d1). f_path r = p \<longrightarrow> f_id r \<noteq> fileId"
      using wf w1(2) p by (auto simp: fs(2) wf_db_def list_all_iff)
    then have "path_view d' p = path_view d1 p"
      using fr by (intro path_view_other_rows [of _ _ fileId]) simp_all
    then show ?thesis
      using insertFile_path_view [OF wf i p] by simp
  qed
  show "indexed d' g" if "res = None"
    using rows that held_new_row [OF f'] by (simp add: indexed_def)
  show "\<exists>m. batchSize * m < length (chunkText (content g) 500) \<and> held d' g (batchSize * m)"
    if "res = Some EmbeddingError"
  proof -
    from rows that obtain m where m: "batchSize * m < length (chunkText (content g) 500)"
      "chunk_rows d' fileId = enum (batchSize * m) (chunkText (content g) 500)"
      by auto
    from held_new_row [OF f' m(2)] m(1) show ?thesis by blast
  qed
  show "no_orphans d'" if "foreign_keys d" "no_orphans d"
    using embed_batches_no_orphans [OF eb insertFile_no_orphans [OF i that] w1(5)] .
qed

lemma index_file_answered:
  assumes wf: "wf_db d"
    and ix: "index_file client fround g (d, e) = (Some EmbeddingError, d', e')"
  shows "batchSize * answered_batches client (chunkText (content g) 500) 0 e
           < length (chunkText (content g) 500)"
    and "held d' g (batchSize * answered_batches client (chunkText (content g) 500) 0 e)"
proof -
  from ix obtain fileId d1 where i: "insertFile g d = (fileId, d1)"
    and eb: "embed_batches client fround fileId (chunkText (content g) 500) 0 (d1, e) =
        (Some EmbeddingError, d', e')"
    by (rule index_file_unfold)
  note fs = insertFile_fields [OF i]
  note w1 = insertFile_wf [OF wf i]
  note fr = embed_batches_frame [OF eb]
  have start: "chunk_rows d1 fileId = enum 0 (chunkText (content g) 500)"
    by (simp add: w1(3) enum_def)
  from embed_batches_answered [OF eb w1(4) start]
  have a: "batchSize * answered_batches client (chunkText (content g) 500) 0 e
        < length (chunkText (content g) 500)"
    "chunk_rows d' fileId =
       enum (batchSize * answered_batches client (chunkText (content g) 500) 0 e)
         (chunkText (content g) 500)"
    by simp_all
  show "batchSize * answered_batches client (chunkText (content g) 500) 0 e
        < length (chunkText (content g) 500)"
    by (rule a(1))
  have f': "files d' = filter (\<lambda>r. f_path r \<noteq> path g) (files d) @
           [\<lparr>f_id = fileId, f_path = path g, f_content = content g, f_mtime = mtime g,
             f_size = size_bytes g, f_extension = extension g\<rparr>]"
    using fr fs(2) by simp
  show "held d' g (batchSize * answered_batches client (chunkText (content g) 500) 0 e)"
    by (rule held_new_row [OF f' a(2)])
qed

lemma indexFiles_append:
  "indexFiles client fround (xs @ ys) s =
     (case indexFiles client fround xs s of
        (Inl err, s') \<Rightarrow> (Inl err, s')
      | (Inr v, s') \<Rightarrow> indexFiles client fround ys s')"
proof (induction xs arbitrary: s)
  case Nil
  show ?case by simp
next
  case (Cons x xs)
  obtain r s1 where ix: "index_file client fround x s = (r, s1)"
    by (cases "index_file client fround x s") auto
  show ?case
  proof (cases r)
    case None
    with ix Cons.IH [of s1] show ?thesis by simp
  next
    case (Some err)
    with ix show ?thesis by simp
  qed
qed

lemma indexFiles_undefined:
  "indexFiles client fround fs s = (Inr v, s') \<Longrightarrow> v = Undefined"
  by (induction fs arbitrary: s) (auto split: prod.splits option.splits)

lemma indexFiles_Cons_cases:
  assumes "indexFiles client fround (g # rest) (d, e) = (r, d', e')"
  obtains (failed) err where "index_file client fround g (d, e) = (Some err, d', e')" "r = Inl err"
  | (continue) d1 e1 where "index_file client fround g (d, e) = (None, d1, e1)"
      "indexFiles client fround rest (d1, e1) = (r, d', e')"
  using assms by (auto split: prod.splits option.splits)

lemma indexFiles_frame:
  "wf_db d \<Longrightarrow> indexFiles client fround fs (d, e) = (r, d', e') \<Longrightarrow>
   wf_db d' \<and> foreign_keys d' = foreign_keys d \<and>
   (foreign_keys d \<and> no_orphans d \<longrightarrow> no_orphans d') \<and>
   (\<forall>p. p \<notin> set (map path fs) \<longrightarrow> path_view d' p = path_view d p)"
proof (induction fs arbitrary: d e)
  case Nil
  then show ?case by simp
next
  case (Cons g rest)
  from Cons.prems(2) show ?case
  proof (cases rule: indexFiles_Cons_cases)
    case (failed err)
    note p = index_file_props [OF Cons.prems(1) failed(1)]
    show ?thesis
      using p(1,2,4,7) by simp
  next
    case (continue d1 e1)
    note p = index_file_props [OF Cons.prems(1) continue(1)]
    from Cons.IH [OF p(1) continue(2)] p(2,4,7) show ?thesis
      by simp
  qed
qed

lemma indexFiles_indexed:
  "wf_db d \<Longrightarrow> indexFiles client fround fs (d, e) = (Inr v, d', e') \<Longrightarrow>
   p \<in> set (map path fs) \<Longrightarrow> indexed d' (last (filter (\<lambda>g. path g = p) fs))"
proof (induction fs arbitrary: d e)
  case Nil
  then show ?case by simp
next
  case (Cons g rest)
  from Cons.prems(2) show ?case
  proof (cases rule: indexFiles_Cons_cases)
    case (failed err)
    then show ?thesis by simp
  next
    case (continue d1 e1)
    note pr = index_file_props [OF Cons.prems(1) continue(1)]
    show ?thesis
    proof (cases "p \<in> set (map path rest)")
      case True
      then have "filter (\<lambda>g. path g = p) rest \<noteq> []"
        by (auto simp: filter_empty_conv)
      then have "last (filter (\<lambda>g. path g = p) (g # rest)) = last (filter (\<lambda>g. path g = p) rest)"
        by simp
      with Cons.IH [OF pr(1) continue(2) True] show ?thesis by simp
    next
      case False
      with Cons.prems(3) have pg: "path g = p" by auto
      from False have "filter (\<lambda>g. path g = p) rest = []"
        by (auto simp: filter_empty_conv)
      with pg have l: "last (filter (\<lambda>g. path g = p) (g # rest)) = g" by simp
      have "path_view d' (path g) = path_view d1 (path g)"
        using indexFiles_frame [OF pr(1) continue(2)] False pg by blast
      then have "indexed d' g = indexed d1 g"
        unfolding indexed_def by (rule held_cong)
      with pr(5) l show ?thesis by simp
    qed
  qed
qed

text \<open>The sample runs.\<close>

lemmas sample_defs =
  sample_file_def sample_file2_def sample_file_b_def sample_file_c_def row_a_def row_a2_def
  row_b_def chunk_a_def chunk_a2_def db_a_def db_a2_def db_a2_failed_def db_ab_failed_def new_db_def

lemmas run_defs =
  index_file_def insertFile_def next_id_def embed_batches.simps store_batch.simps slice_def
  batchSize_def insertEmbedding_def fixed_client_def failing_client_def

lemma chunks_a: "chunkText [CHR ''x'', NL, CHR ''y'', NL] 500 = [[CHR ''x'', NL, CHR ''y'']]"
  by code_simp

lemma chunks_z: "chunkText ''z'' 500 = [''z'']"
  by code_simp

lemma chunks_w: "chunkText ''w'' 500 = [''w'']"
  by code_simp

lemma run_a: "index_file (fixed_client [Fin 1]) id sample_file (new_db, 0) = (None, db_a, 1)"
  by (simp add: sample_defs run_defs chunks_a)

lemma run_a_failing:
  "index_file (failing_client 1 [Fin 1]) id sample_file (new_db, 0) = (None, db_a, 1)"
  by (simp add: sample_defs run_defs chunks_a)

lemma run_a2: "index_file (fixed_client [Fin 1]) id sample_file2 (db_a, 1) = (None, db_a2, 2)"
  by (simp add: sample_defs run_defs chunks_z)

lemma run_a2_failing:
  "index_file (failing_client 1 [Fin 1]) id sample_file2 (db_a, 1) = (Some EmbeddingError, db_a2_failed, 2)"
  by (simp add: sample_defs run_defs chunks_z)

lemma run_b_failing:
  "index_file (failing_client 1 [Fin 1]) id sample_file_b (db_a, 1) = (Some EmbeddingError, db_ab_failed, 2)"
  by (simp add: sample_defs run_defs chunks_w)

lemma run_long_failing:
  "index_file (failing_client 1 [Fin 1]) id long_file (new_db, 0) =
     (Some EmbeddingError, db_long_failed, 2)"
  by (simp add: index_file_def long_file_def chunks_long insertFile_def next_id_def new_db_def
      embed_batches.simps store_batch.simps slice_def batchSize_def insertEmbedding_def
      failing_client_def db_long_failed_def upt_conv_Cons)

lemma answered_long:
  "answered_batches (failing_client 1 [Fin 1]) (replicate 21 long_line) 0 0 = 1"
  by (simp add: answered_batches.simps failing_client_def slice_def batchSize_def)

lemma wf_new_db: "wf_db new_db"
  by (simp add: wf_db_def new_db_def)

lemma runs_a_a2:
  "indexFiles (fixed_client [Fin 1]) id [sample_file, sample_file2] (new_db, 0) =
     (Inr Undefined, db_a2, 2)"
  by (simp only: indexFiles.simps run_a run_a2 prod.case option.case)

lemma runs_a:
  "indexFiles (fixed_client [Fin 1]) id [sample_file] (new_db, 0) = (Inr Undefined, db_a, 1)"
  by (simp only: indexFiles.simps run_a prod.case option.case)

lemma runs_a_failing:
  "indexFiles (failing_client 1 [Fin 1]) id [sample_file] (new_db, 0) = (Inr Undefined, db_a, 1)"
  by (simp only: indexFiles.simps run_a_failing prod.case option.case)

lemma runs_a_a2_failing:
  "indexFiles (failing_client 1 [Fin 1]) id [sample_file, sample_file2] (new_db, 0) =
     (Inl EmbeddingError, db_a2_failed, 2)"
  by (simp only: indexFiles.simps run_a_failing run_a2_failing prod.case option.case)

lemma filter_distinct_key:
  "distinct (map k xs) \<Longrightarrow> x \<in> set xs \<Longrightarrow> filter (\<lambda>h. k h = k x) xs = [x]"
proof (induction xs)
  case Nil
  then show ?case by simp
next
  case (Cons a xs)
  show ?case
  proof (cases "a = x")
    case True
    have "k h \<noteq> k x" if "h \<in> set xs" for h
      using Cons.prems(1) True that by (metis distinct.simps(2) image_eqI list.simps(9) set_map)
    then have "filter (\<lambda>h. k h = k x) xs = []"
      by (simp add: filter_empty_conv)
    with True show ?thesis by simp
  next
    case False
    with Cons.prems have x: "x \<in> set xs" by simp
    then have "k a \<noteq> k x"
      using Cons.prems(1) by (metis distinct.simps(2) image_eqI list.simps(9) set_map)
    with Cons x show ?thesis by simp
  qed
qed

lemma held_row:
  assumes h: "held d g n"
  obtains r es where "path_view d (path g) = [(r, es)]" "f_mtime r = mtime g"
proof -
  from h obtain x xs where c: "path_view d (path g) = x # xs"
    by (cases "path_view d (path g)") (auto simp: held_def)
  with h have n: "xs = []"
    by (cases xs) (auto simp: held_def split: prod.splits)
  obtain r es where x: "x = (r, es)" by (cases x) auto
  from h c n x have "f_mtime r = mtime g"
    by (simp add: held_def)
  with c n x that show ?thesis by simp
qed

text \<open>
  C1: after a successful \<open>indexFiles\<close>, every path of the list has exactly one file record,
  that of its last occurrence in the list, whatever the store held for the path before; the
  chunk records joined to it are exactly the chunks of that content, numbered from 0; keys
  stay unique, and with foreign keys enforced no chunk record is left without its file.
\<close>

theorem indexFiles_replaces:
  assumes wf: "wf_db d"
    and run: "indexFiles client fround fs (d, e) = (Inr v, d', e')"
    and f: "f \<in> set fs"
  shows "indexed d' (last (filter (\<lambda>g. path g = path f) fs)) \<and> wf_db d' \<and>
         (foreign_keys d \<and> no_orphans d \<longrightarrow> no_orphans d')"
proof -
  from f have "path f \<in> set (map path fs)" by simp
  from indexFiles_indexed [OF wf run this] indexFiles_frame [OF wf run]
  show ?thesis by blast
qed

theorem indexFiles_replaces_witness:
  "wf_db new_db \<and>
   indexFiles (fixed_client [Fin 1]) id [sample_file, sample_file2] (new_db, 0) =
     (Inr Undefined, db_a2, 2) \<and>
   last (filter (\<lambda>g. path g = path sample_file) [sample_file, sample_file2]) = sample_file2 \<and>
   indexed db_a2 sample_file2 \<and> wf_db db_a2 \<and> no_orphans db_a2 \<and>
   path_view db_a2 ''a.txt'' = [(row_a2, [chunk_a2])]"
proof -
  note run = runs_a_a2
  have m: "sample_file \<in> set [sample_file, sample_file2]" by simp
  have l: "last (filter (\<lambda>g. path g = path sample_file) [sample_file, sample_file2]) = sample_file2"
    by (simp add: sample_file_def sample_file2_def)
  have n: "foreign_keys new_db \<and> no_orphans new_db"
    by (simp add: new_db_def no_orphans_def)
  have v: "path_view db_a2 ''a.txt'' = [(row_a2, [chunk_a2])]"
    by (simp add: path_view_def db_a2_def row_a2_def chunk_a2_def)
  from indexFiles_replaces [OF wf_new_db run m] l n
  have "indexed db_a2 sample_file2 \<and> wf_db db_a2 \<and> no_orphans db_a2"
    by simp
  with wf_new_db run l v show ?thesis by blast
qed

text \<open>
  C5, as the specification states it: for every list of files, a failure of the client while
  file \<open>k\<close> is processed leaves every earlier file of the list fully committed. When file
  \<open>k\<close> has the path of an earlier file, its insertion has already replaced that file's
  record and removed its chunks.
\<close>

theorem indexFiles_failure_counterexample:
  "index_file (failing_client 1 [Fin 1]) id sample_file (new_db, 0) = (None, db_a, 1) \<and>
   indexed db_a sample_file \<and>
   index_file (failing_client 1 [Fin 1]) id sample_file2 (db_a, 1) =
     (Some EmbeddingError, db_a2_failed, 2) \<and>
   indexFiles (failing_client 1 [Fin 1]) id [sample_file, sample_file2] (new_db, 0) =
     (Inl EmbeddingError, db_a2_failed, 2) \<and>
   \<not> indexed db_a2_failed sample_file \<and>
   path_view db_a2_failed (path sample_file) = [(row_a2, [])]"
proof -
  have "indexed db_a sample_file"
    by (simp add: indexed_def held_def path_view_def db_a_def row_a_def chunk_a_def
        sample_file_def chunks_a)
  moreover have "path_view db_a2_failed (path sample_file) = [(row_a2, [])]"
    by (simp add: path_view_def db_a2_failed_def row_a2_def sample_file_def)
  moreover from this have "\<not> indexed db_a2_failed sample_file"
    by (simp add: indexed_def held_def row_a2_def sample_file_def)
  ultimately show ?thesis
    using run_a_failing run_a2_failing runs_a_a2_failing by blast
qed

text \<open>
  C5, amended: for a list of files with pairwise distinct paths, when the files before
  position \<open>k\<close> have been indexed and file \<open>k\<close> fails, the whole call fails with that error
  in the store reached at that point; every file before \<open>k\<close> is held there with its record
  and all its chunks, and for every file after \<open>k\<close> the store holds under its path what it
  held before the call.
\<close>

theorem indexFiles_failure:
  assumes wf: "wf_db d"
    and dist: "distinct (map path (pre @ g # post))"
    and pre: "indexFiles client fround pre (d, e) = (Inr v, d1, e1)"
    and fail: "index_file client fround g (d1, e1) = (Some err, d2, e2)"
  shows "indexFiles client fround (pre @ g # post) (d, e) = (Inl err, d2, e2) \<and>
         list_all (indexed d2) pre \<and>
         list_all (\<lambda>f. path_view d2 (path f) = path_view d (path f)) post"
proof -
  note fr = indexFiles_frame [OF wf pre]
  from fr have wf1: "wf_db d1" by blast
  note pg = index_file_props [OF wf1 fail]
  have run: "indexFiles client fround (pre @ g # post) (d, e) = (Inl err, d2, e2)"
    by (simp add: indexFiles_append pre fail)
  have dg: "path g \<notin> set (map path pre)" "path g \<notin> set (map path post)"
    and dpp: "set (map path pre) \<inter> set (map path post) = {}"
    using dist by auto
  have "indexed d2 f" if f: "f \<in> set pre" for f
  proof -
    from f have fp: "path f \<in> set (map path pre)" by simp
    have "distinct (map path pre)" using dist by simp
    then have "filter (\<lambda>h. path h = path f) pre = [f]"
      using f by (rule filter_distinct_key)
    then have "last (filter (\<lambda>h. path h = path f) pre) = f" by simp
    moreover note fp
    ultimately have "indexed d1 f"
      using indexFiles_indexed [OF wf pre, of "path f"] by simp
    moreover have "path f \<noteq> path g" using fp dg(1) by metis
    then have "path_view d2 (path f) = path_view d1 (path f)" by (rule pg(4))
    then have "indexed d2 f = indexed d1 f"
      unfolding indexed_def by (rule held_cong)
    ultimately show ?thesis by simp
  qed
  moreover have "path_view d2 (path f) = path_view d (path f)" if f: "f \<in> set post" for f
  proof -
    from f have fp: "path f \<in> set (map path post)" by simp
    have "path f \<noteq> path g" using fp dg(2) by metis
    moreover have "path f \<notin> set (map path pre)" using fp dpp by blast
    ultimately show ?thesis
      using pg(4) [of "path f"] fr by simp
  qed
  ultimately show ?thesis
    using run by (simp add: list_all_iff)
qed

theorem indexFiles_failure_witness:
  "wf_db new_db \<and> distinct (map path ([sample_file] @ sample_file_b # [sample_file_c])) \<and>
   indexFiles (failing_client 1 [Fin 1]) id [sample_file] (new_db, 0) = (Inr Undefined, db_a, 1) \<and>
   index_file (failing_client 1 [Fin 1]) id sample_file_b (db_a, 1) =
     (Some EmbeddingError, db_ab_failed, 2) \<and>
   indexFiles (failing_client 1 [Fin 1]) id ([sample_file] @ sample_file_b # [sample_file_c])
     (new_db, 0) = (Inl EmbeddingError, db_ab_failed, 2) \<and>
   indexed db_ab_failed sample_file \<and>
   path_view db_ab_failed (path sample_file_c) = path_view new_db (path sample_file_c)"
proof -
  have dist: "distinct (map path ([sample_file] @ sample_file_b # [sample_file_c]))"
    by (simp add: sample_file_def sample_file_b_def sample_file_c_def)
  note pre = runs_a_failing
  from indexFiles_failure [OF wf_new_db dist pre run_b_failing]
  have "indexFiles (failing_client 1 [Fin 1]) id ([sample_file] @ sample_file_b # [sample_file_c])
      (new_db, 0) = (Inl EmbeddingError, db_ab_failed, 2) \<and>
    indexed db_ab_failed sample_file \<and>
    path_view db_ab_failed (path sample_file_c) = path_view new_db (path sample_file_c)"
    by simp
  with wf_new_db dist pre run_b_failing show ?thesis by blast
qed

text \<open>
  C10: the record of a file is inserted before its first embedding batch. When the client
  fails while the file is in progress, the call fails, the \<open>files\<close> table is the one the
  insertion left, and the file is held with exactly the chunks of the batches that the
  client answered before it failed, fewer than all its chunks; \<open>getRecentFiles\<close> lists the
  file when its time is past the cutoff.
\<close>

theorem index_file_record_first:
  assumes wf: "wf_db d"
    and pre: "indexFiles client fround pre (d, e) = (Inr v, d1, e1)"
    and fail: "index_file client fround g (d1, e1) = (Some EmbeddingError, d2, e2)"
  shows "indexFiles client fround (pre @ g # post) (d, e) = (Inl EmbeddingError, d2, e2) \<and>
         files d2 = files (snd (insertFile g d1)) \<and>
         batchSize * answered_batches client (chunkText (content g) 500) 0 e1
           < length (chunkText (content g) 500) \<and>
         held d2 g (batchSize * answered_batches client (chunkText (content g) 500) 0 e1) \<and>
         (now - days * 86400 * 1000 < mtime g \<longrightarrow>
            (path g, mtime g) \<in> set (getRecentFiles now days d2))"
proof -
  from indexFiles_frame [OF wf pre] have wf1: "wf_db d1" by blast
  note pg = index_file_props [OF wf1 fail]
  note an = index_file_answered [OF wf1 fail]
  have run: "indexFiles client fround (pre @ g # post) (d, e) = (Inl EmbeddingError, d2, e2)"
    by (simp add: indexFiles_append pre fail)
  from an(2) obtain r es where v: "path_view d2 (path g) = [(r, es)]" and t: "f_mtime r = mtime g"
    by (rule held_row)
  from v have "r \<in> set (filter (\<lambda>r. f_path r = path g) (files d2))"
    by (auto simp: path_view_def map_eq_Cons_conv)
  then have r: "r \<in> set (files d2)" "f_path r = path g" by simp_all
  have "(path g, mtime g) \<in> set (getRecentFiles now days d2)"
    if "now - days * 86400 * 1000 < mtime g"
  proof -
    from r t that have "r \<in> set (filter (\<lambda>row. now - days * 86400 * 1000 < f_mtime row) (files d2))"
      by simp
    then have "(f_path r, f_mtime r) \<in> set (map (\<lambda>row. (f_path row, f_mtime row))
        (filter (\<lambda>row. now - days * 86400 * 1000 < f_mtime row) (files d2)))"
      by (metis (mono_tags, lifting) image_eqI set_map)
    then show ?thesis
      using getRecentFiles_mset [of now days d2] r(2) t by (metis set_mset_mset)
  qed
  with run pg(3) an show ?thesis by blast
qed

theorem index_file_record_first_witness:
  "wf_db new_db \<and>
   indexFiles (failing_client 1 [Fin 1]) id [] (new_db, 0) = (Inr Undefined, new_db, 0) \<and>
   index_file (failing_client 1 [Fin 1]) id long_file (new_db, 0) =
     (Some EmbeddingError, db_long_failed, 2) \<and>
   indexFiles (failing_client 1 [Fin 1]) id ([] @ long_file # [sample_file_c]) (new_db, 0) =
     (Inl EmbeddingError, db_long_failed, 2) \<and>
   length (chunkText (content long_file) 500) = 21 \<and>
   answered_batches (failing_client 1 [Fin 1]) (chunkText (content long_file) 500) 0 0 = 1 \<and>
   length (embeddings db_long_failed) = 20 \<and>
   held db_long_failed long_file 20 \<and>
   5000 - 1 * 86400 * 1000 < mtime long_file \<and>
   (path long_file, mtime long_file) \<in> set (getRecentFiles 5000 1 db_long_failed)"
proof -
  have pre: "indexFiles (failing_client 1 [Fin 1]) id [] (new_db, 0) = (Inr Undefined, new_db, 0)"
    by simp
  have c: "chunkText (content long_file) 500 = replicate 21 long_line"
    by (simp add: long_file_def chunks_long)
  have a: "answered_batches (failing_client 1 [Fin 1]) (chunkText (content long_file) 500) 0 0 = 1"
    by (simp only: c answered_long)
  have t: "5000 - 1 * 86400 * 1000 < mtime long_file"
    by (simp add: long_file_def)
  have n: "length (embeddings db_long_failed) = 20"
    by (simp add: db_long_failed_def)
  from index_file_record_first
    [OF wf_new_db pre run_long_failing, of "[sample_file_c]" 5000 1] t
  have "indexFiles (failing_client 1 [Fin 1]) id ([] @ long_file # [sample_file_c]) (new_db, 0) =
      (Inl EmbeddingError, db_long_failed, 2) \<and>
    held db_long_failed long_file
      (batchSize * answered_batches (failing_client 1 [Fin 1]) (chunkText (content long_file) 500) 0 0) \<and>
    (path long_file, mtime long_file) \<in> set (getRecentFiles 5000 1 db_long_failed)"
    by blast
  then have "indexFiles (failing_client 1 [Fin 1]) id ([] @ long_file # [sample_file_c]) (new_db, 0) =
      (Inl EmbeddingError, db_long_failed, 2) \<and>
    held db_long_failed long_file 20 \<and>
    (path long_file, mtime long_file) \<in> set (getRecentFiles 5000 1 db_long_failed)"
    by (simp only: a batchSize_def mult_1_right)
  with wf_new_db pre run_long_failing c a t n show ?thesis
    by simp
qed

text \<open>
  C8, as the specification states it: \<open>indexFiles\<close> returns the number of files processed.
  It has no return statement: on one file it yields \<open>undefined\<close>, not 1.
\<close>

theorem indexFiles_count_counterexample:
  "indexFiles (fixed_client [Fin 1]) id [sample_file] (new_db, 0) = (Inr Undefined, db_a, 1) \<and>
   Undefined \<noteq> Number (Fin (real (length [sample_file])))"
  using runs_a by simp

text \<open>
  C8, amended: whenever \<open>indexFiles\<close> succeeds, what it returns is \<open>undefined\<close>; the count
  of files processed is reported by its caller: the reply of \<open>handleIndexDirectory\<close> is
  "Indexed n files from" the directory, \<open>n\<close> being the length of the list it passed.
\<close>

theorem indexFiles_returns_undefined:
  assumes "indexFiles client fround fs s = (Inr v, s')"
  shows "v = Undefined \<and>
         (indexDirectory dirPath = Some fs \<longrightarrow>
            handleIndexDirectory indexDirectory client fround dirPath s =
              (Inr (''Indexed '' @ decimal (length fs) @ '' files from '' @ dirPath), s'))"
  using assms indexFiles_undefined [OF assms] by (simp add: handleIndexDirectory_def)

theorem indexFiles_returns_undefined_witness:
  "indexFiles (fixed_client [Fin 1]) id [sample_file, sample_file2] (new_db, 0) =
     (Inr Undefined, db_a2, 2) \<and>
   decimal (length [sample_file, sample_file2]) = ''2'' \<and>
   handleIndexDirectory (\<lambda>dir. Some [sample_file, sample_file2]) (fixed_client [Fin 1]) id ''notes''
     (new_db, 0) = (Inr ''Indexed 2 files from notes'', db_a2, 2)"
proof -
  have d: "decimal (length [sample_file, sample_file2]) = ''2''"
    by (simp add: decimal.simps digit_def)
  have e: "(\<lambda>dir. Some [sample_file, sample_file2]) ''notes'' = Some [sample_file, sample_file2]"
    by simp
  from indexFiles_returns_undefined
    [OF runs_a_a2, of "\<lambda>dir. Some [sample_file, sample_file2]" "''notes''"] e
  have "handleIndexDirectory (\<lambda>dir. Some [sample_file, sample_file2]) (fixed_client [Fin 1]) id
      ''notes'' (new_db, 0) =
      (Inr (''Indexed '' @ decimal (length [sample_file, sample_file2]) @ '' files from '' @ ''notes''),
       db_a2, 2)"
    by blast
  then have "handleIndexDirectory (\<lambda>dir. Some [sample_file, sample_file2]) (fixed_client [Fin 1]) id
      ''notes'' (new_db, 0) = (Inr ''Indexed 2 files from notes'', db_a2, 2)"
    by (simp only: d append.simps)
  with runs_a_a2 d show ?thesis by blast
qed

end
